theory Spec2Isabelle
  imports Complex_Main "HOL-Library.Sublist" "HOL-Library.AList"
begin

section \<open>Python strings\<close>

text \<open>
  A Python \<open>str\<close> is a sequence of Unicode code points. A code point is modelled as a
  natural number and a string as a list of them, so that \<open>len\<close>, slicing, \<open>in\<close> and
  \<open>startswith\<close> count what Python counts. \<open>py\<close> turns an ASCII literal of the source
  into such a list.
\<close>

type_synonym cp = nat
type_synonym str = "cp list"

definition py :: "string \<Rightarrow> str" where
  "py s = map of_char s"

text \<open>
  \<open>str.isspace\<close> of a single character, which is also what \<open>\s\<close> matches in a
  \<open>str\<close> pattern and what \<open>str.strip()\<close> removes: the ASCII controls 9 to 13 and
  28 to 31, the blank, and the Unicode separators.
\<close>

definition is_space :: "cp \<Rightarrow> bool" where
  "is_space c \<longleftrightarrow> c \<in> set [9, 10, 11, 12, 13, 28, 29, 30, 31, 32, 133, 160, 5760,
     8192, 8193, 8194, 8195, 8196, 8197, 8198, 8199, 8200, 8201, 8202,
     8232, 8233, 8239, 8287, 12288]"

text \<open>
  \<open>\d\<close> in a \<open>str\<close> pattern matches every Unicode decimal digit (category Nd), not only
  \<open>0\<close> to \<open>9\<close>. Each script's digits are ten consecutive code points; the list holds
  the code point of each script's zero (Unicode 14, the table of CPython 3.11).
\<close>

definition nd_zeros :: "cp list" where
  "nd_zeros = [48, 1632, 1776, 1984, 2406, 2534, 2662, 2790, 2918, 3046, 3174, 3302,
     3430, 3558, 3664, 3792, 3872, 4160, 4240, 6112, 6160, 6470, 6608, 6784, 6800, 6992,
     7088, 7232, 7248, 42528, 43216, 43264, 43472, 43504, 43600, 44016, 65296, 66720,
     68912, 69734, 69872, 69942, 70096, 70384, 70736, 70864, 71248, 71360, 71472, 71904,
     72016, 72784, 73040, 73120, 92768, 92864, 93008, 120782, 120792, 120802, 120812,
     120822, 123200, 123632, 125264, 130032]"

definition decimal_value :: "cp \<Rightarrow> nat option" where
  "decimal_value c =
     map_option (\<lambda>z. c - z) (find (\<lambda>z. z \<le> c \<and> c < z + 10) nd_zeros)"

definition is_decimal :: "cp \<Rightarrow> bool" where
  "is_decimal c \<longleftrightarrow> decimal_value c \<noteq> None"

text \<open>The class \<open>[0-9\.\,]\<close> of the price patterns is ASCII only.\<close>

definition is_amount_char :: "cp \<Rightarrow> bool" where
  "is_amount_char c \<longleftrightarrow> (48 \<le> c \<and> c \<le> 57) \<or> c = 46 \<or> c = 44"

text \<open>\<open>.\<close> without the DOTALL flag matches everything but the line feed.\<close>

definition not_newline :: "cp \<Rightarrow> bool" where
  "not_newline c \<longleftrightarrow> c \<noteq> 10"

text \<open>
  A literal letter under \<open>re.IGNORECASE\<close> matches both of its cases and, for \<open>i\<close>,
  \<open>s\<close> and \<open>k\<close>, the extra code points whose case folding meets the letter
  (U+0130, U+0131, U+017F, U+212A). Any other literal matches itself.
\<close>

definition ignorecase_set :: "cp \<Rightarrow> cp list" where
  "ignorecase_set c =
     (let lo = (if 65 \<le> c \<and> c \<le> 90 then c + 32 else c) in
      if 97 \<le> lo \<and> lo \<le> 122 then
        [lo, lo - 32] @ (if lo = 105 then [304, 305] else if lo = 115 then [383]
                         else if lo = 107 then [8490] else [])
      else [c])"

definition lit :: "cp \<Rightarrow> cp \<Rightarrow> bool" where
  "lit k c \<longleftrightarrow> c = k"

definition lit_i :: "cp \<Rightarrow> cp \<Rightarrow> bool" where
  "lit_i k c \<longleftrightarrow> c \<in> set (ignorecase_set k)"

text \<open>\<open>s.strip()\<close>, \<open>sub in s\<close>, \<open>sep.join(parts)\<close> and \<open>s.split(sep)[0]\<close>.\<close>

definition py_strip :: "str \<Rightarrow> str" where
  "py_strip s = rev (dropWhile is_space (rev (dropWhile is_space s)))"

fun contains :: "str \<Rightarrow> str \<Rightarrow> bool" where
  "contains sub [] = (sub = [])"
| "contains sub (c # cs) = (prefix sub (c # cs) \<or> contains sub cs)"

fun join :: "str \<Rightarrow> str list \<Rightarrow> str" where
  "join sep [] = []"
| "join sep [x] = x"
| "join sep (x # y # ys) = x @ sep @ join sep (y # ys)"

definition split_first :: "cp \<Rightarrow> str \<Rightarrow> str" where
  "split_first sep s = takeWhile (\<lambda>c. c \<noteq> sep) s"

section \<open>The regular expressions of the source\<close>

text \<open>
  Every pattern of the source is a sequence of single-character classes, each with a
  greedy quantifier, possibly closed by \<open>$\<close>. The matcher below is the backtracking
  matcher of \<open>re\<close> restricted to such patterns: for each item it tries the admissible
  lengths from the longest to the shortest and keeps the first for which the rest of
  the pattern matches. It returns the text consumed by each item and what is left.
\<close>

datatype quant = Once | Opt | Star | Plus | Times nat

datatype item = Rep "cp \<Rightarrow> bool" quant | Eol

text \<open>A word of the pattern under \<open>re.IGNORECASE\<close>: one item for each letter.\<close>

definition literal_i :: "str \<Rightarrow> item list" where
  "literal_i word = map (\<lambda>k. Rep (lit_i k) Once) word"

fun lens :: "quant \<Rightarrow> nat \<Rightarrow> nat list" where
  "lens Once m = (if 1 \<le> m then [1] else [])"
| "lens Opt m = (if 1 \<le> m then [1, 0] else [0])"
| "lens Star m = rev [0..<Suc m]"
| "lens Plus m = rev [1..<Suc m]"
| "lens (Times n) m = (if n \<le> m then [n] else [])"

fun first_some :: "('a \<Rightarrow> 'b option) \<Rightarrow> 'a list \<Rightarrow> 'b option" where
  "first_some f [] = None"
| "first_some f (x # xs) = (case f x of Some y \<Rightarrow> Some y | None \<Rightarrow> first_some f xs)"

text \<open>\<open>$\<close> (no MULTILINE) holds at the end and just before a final line feed.\<close>

fun match_here :: "item list \<Rightarrow> str \<Rightarrow> (str list \<times> str) option" where
  "match_here [] s = Some ([], s)"
| "match_here (Eol # its) s =
     (if s = [] \<or> s = [10]
      then map_option (\<lambda>(gs, r). ([] # gs, r)) (match_here its s) else None)"
| "match_here (Rep p q # its) s =
     first_some
       (\<lambda>n. map_option (\<lambda>(gs, r). (take n s # gs, r)) (match_here its (drop n s)))
       (lens q (length (takeWhile p s)))"

text \<open>
  \<open>pattern.search\<close>: the match at the leftmost position that has one. The result is
  the text skipped, the text of each item, and the text after the match.
\<close>

fun search :: "item list \<Rightarrow> str \<Rightarrow> (str \<times> str list \<times> str) option" where
  "search rx [] = map_option (\<lambda>(gs, r). ([], gs, r)) (match_here rx [])"
| "search rx (c # cs) =
     (case match_here rx (c # cs) of
        Some (gs, r) \<Rightarrow> Some ([], gs, r)
      | None \<Rightarrow> map_option (\<lambda>(skipped, gs, r). (c # skipped, gs, r)) (search rx cs))"

text \<open>
  \<open>re.finditer\<close> and \<open>re.sub\<close>: the successive non-overlapping matches, each search
  starting where the previous match ended. The patterns they are used with consume
  at least one character, so the text left gets shorter; the scan stops if it does not.
\<close>

function finditer :: "item list \<Rightarrow> str \<Rightarrow> str list list" where
  "finditer rx s =
     (case search rx s of
        None \<Rightarrow> []
      | Some (skipped, gs, r) \<Rightarrow>
          gs # (if length r < length s then finditer rx r else []))"
  by pat_completeness auto
termination
  by (relation "measure (\<lambda>(rx, s). length s)") auto

function re_sub :: "item list \<Rightarrow> str \<Rightarrow> str \<Rightarrow> str" where
  "re_sub rx repl s =
     (case search rx s of
        None \<Rightarrow> s
      | Some (skipped, gs, r) \<Rightarrow>
          skipped @ repl @ (if length r < length s then re_sub rx repl r else r))"
  by pat_completeness auto
termination
  by (relation "measure (\<lambda>(rx, repl, s). length s)") auto

section \<open>Price, stock and name normalizers\<close>

text \<open>
  \<^verbatim>\<open>_PRICE_RE = re.compile(r"\$?\s*([0-9\.\,]+)")\<close>,
  \<^verbatim>\<open>_SKU_INLINE_RE = re.compile(r"^(\d{6})\s+(.+)$")\<close> (used with \<open>match\<close>, which
  anchors at the start) and
  \<^verbatim>\<open>_UNITS_RE = re.compile(r"(\+?\d+)\s*UNIDADES", re.IGNORECASE)\<close>.
\<close>

definition PRICE_RE :: "item list" where
  "PRICE_RE = [Rep (lit 36) Opt, Rep is_space Star, Rep is_amount_char Plus]"

definition SKU_INLINE_RE :: "item list" where
  "SKU_INLINE_RE = [Rep is_decimal (Times 6), Rep is_space Plus, Rep not_newline Plus, Eol]"

definition UNITS_RE :: "item list" where
  "UNITS_RE = [Rep (lit 43) Opt, Rep is_decimal Plus, Rep is_space Star] @
     literal_i (py ''UNIDADES'')"

text \<open>
  \<open>float(raw)\<close> for a string over the digits \<open>0\<close> to \<open>9\<close>, the dot and the comma,
  which is all that group 1 of \<open>_PRICE_RE\<close> can hold: it raises ValueError (None) unless
  the string has at least one digit, at most one dot and no comma. The value given here
  is the exact decimal value of the literal; CPython returns the binary64 number nearest
  to it.
\<close>

definition digits_value :: "str \<Rightarrow> nat" where
  "digits_value ds = foldl (\<lambda>acc c. 10 * acc + the (decimal_value c)) 0 ds"

definition py_float :: "str \<Rightarrow> rat option" where
  "py_float raw =
     (let ip = takeWhile (\<lambda>c. c \<noteq> 46) raw;
          fp = drop 1 (dropWhile (\<lambda>c. c \<noteq> 46) raw) in
      if list_all (\<lambda>c. 48 \<le> c \<and> c \<le> 57) (ip @ fp) \<and> ip @ fp \<noteq> []
      then Some (of_nat (digits_value (ip @ fp)) / 10 ^ length fp)
      else None)"

text \<open>
  \<open>int(s)\<close> for a string of decimal digits, which is all that group 1 of \<open>_UNITS_RE\<close>
  holds once \<open>+\<close> is removed. Digits of every script are accepted. CPython (3.11)
  raises ValueError for more than 4300 digits.
\<close>

definition int_max_str_digits :: nat where
  "int_max_str_digits = 4300"

definition py_int :: "str \<Rightarrow> int option" where
  "py_int s =
     (if s \<noteq> [] \<and> list_all is_decimal s \<and> length s \<le> int_max_str_digits
      then Some (int (digits_value s)) else None)"

definition replace_char :: "cp \<Rightarrow> str \<Rightarrow> str \<Rightarrow> str" where
  "replace_char old new s = concat (map (\<lambda>c. if c = old then new else [c]) s)"

definition parse_price_to_float :: "str \<Rightarrow> rat option" where
  "parse_price_to_float text =
     (if text = [] then None
      else case search PRICE_RE text of
        None \<Rightarrow> None
      | Some (skipped, gs, r) \<Rightarrow>
          (let raw = py_strip (gs ! 2);
               raw' = (if 44 \<in> set raw \<and> 46 \<in> set raw
                       then replace_char 44 [46] (replace_char 46 [] raw)
                       else if 44 \<in> set raw \<and> 46 \<notin> set raw
                       then replace_char 44 [46] raw
                       else raw)
           in py_float raw'))"

definition parse_stock :: "str \<Rightarrow> int option" where
  "parse_stock text =
     (if text = [] then None
      else case search UNITS_RE text of
        None \<Rightarrow> None
      | Some (skipped, gs, r) \<Rightarrow> py_int (replace_char 43 [] (gs ! 0 @ gs ! 1)))"

text \<open>\<open>name or ""\<close> makes None the empty string; \<open>\s+\<close> runs become one blank.\<close>

definition cleanup_name :: "str option \<Rightarrow> str" where
  "cleanup_name name =
     (let name1 = py_strip (case name of None \<Rightarrow> [] | Some s \<Rightarrow> s)
      in re_sub [Rep is_space Plus] [32] name1)"

text \<open>
  \<^verbatim>\<open>re.finditer(r"\$\s*([0-9\.\,]+)\s*\+\s*iva", text, re.IGNORECASE)\<close>; each match
  gives \<open>"$"\<close> followed by group 1.
\<close>

definition PRICE_IVA_RE :: "item list" where
  "PRICE_IVA_RE = [Rep (lit 36) Once, Rep is_space Star, Rep is_amount_char Plus,
     Rep is_space Star, Rep (lit 43) Once, Rep is_space Star] @
     literal_i (py ''iva'')"

definition extract_prices_from_line :: "str \<Rightarrow> str list" where
  "extract_prices_from_line text = map (\<lambda>gs. 36 # gs ! 2) (finditer PRICE_IVA_RE text)"

section \<open>Line classifier and row reconstructor\<close>

text \<open>The tuple \<open>(sku, name, x1, x3, x6, stock, eta)\<close> that the scan emits.\<close>

record raw_row =
  r_sku :: str
  r_name :: str
  r_x1 :: str
  r_x3 :: str
  r_x6 :: str
  r_stock :: str
  r_eta :: str

text \<open>The local variables of \<open>_extract_rows_from_text\<close> that live across iterations.\<close>

record scan_state =
  idx :: nat
  rows :: "raw_row list"
  name_buffer :: "str list"
  in_continuation :: bool

definition product_keywords :: "str list" where
  "product_keywords =
    [py ''Laptop'', py ''Monitor'', py ''Nas'', py ''Pc'', py ''Aio'', py ''Celular'',
     py ''Central'', py ''Generador'', py ''Impresora'', py ''Scanner'', py ''Tablet'',
     py ''Desktop'', py ''Server'', py ''Router'', py ''Switch'', py ''Firewall'',
     py ''Access'', py ''Camera'', py ''Webcam'', py ''Teclado'', py ''Mouse'',
     py ''Audifonos'', py ''Parlante'', py ''Microfono'', py ''Disco'', py ''Ssd'',
     py ''Ram'', py ''Memoria'', py ''Procesador'', py ''Tarjeta'', py ''Cable'',
     py ''Adaptador'', py ''Hub'', py ''Dock'', py ''Fuente'', py ''UPS'',
     py ''Bateria'', py ''Pantalla'', py ''Proyector'', py ''Tv'', py ''Smart'']"

text \<open>The header and footer test at the top of the loop body.\<close>

definition is_noise :: "str \<Rightarrow> bool" where
  "is_noise line \<longleftrightarrow>
     line = []
     \<or> contains (py ''SKU IDC'') line
     \<or> contains (py ''NOMBRE DEL PRODUCTO'') line
     \<or> contains (py ''FORMAS DE PAGO'') line
     \<or> prefix (py ''Gratis'') line
     \<or> prefix [128188] line
     \<or> prefix [8226] line"

text \<open>
  One iteration of the \<open>while\<close> loop, given \<open>lines[i]\<close>. Every branch ends with
  \<open>i += 1\<close>, as in the source.
\<close>

definition process_line :: "scan_state \<Rightarrow> str \<Rightarrow> scan_state" where
  "process_line st raw =
     (let line = py_strip raw in
      if is_noise line then
        st\<lparr>idx := idx st + 1, name_buffer := [], in_continuation := False\<rparr>
      else
        (case (if contains [36] line then match_here SKU_INLINE_RE line else None) of
           Some (gs, r) \<Rightarrow>
             (let sku = gs ! 0;
                  rest_of_line = gs ! 2;
                  prices = extract_prices_from_line line;
                  name_parts =
                    (if contains [36] rest_of_line then
                       (let before_price = py_strip (split_first 36 rest_of_line) in
                        if before_price \<noteq> [] then name_buffer st @ [before_price]
                        else name_buffer st)
                     else name_buffer st @ [rest_of_line]);
                  name = cleanup_name (Some (join [32] name_parts));
                  x1 = (if length prices > 0 then prices ! 0 else []);
                  x3 = (if length prices > 1 then prices ! 1 else []);
                  x6 = (if length prices > 2 then prices ! 2 else []);
                  stock_text = line
              in st\<lparr>rows := rows st @
                       [\<lparr>r_sku = sku, r_name = name, r_x1 = x1, r_x3 = x3, r_x6 = x6,
                         r_stock = stock_text, r_eta = stock_text\<rparr>],
                     name_buffer := [], in_continuation := True, idx := idx st + 1\<rparr>)
         | None \<Rightarrow>
             if in_continuation st then
               (if list_ex (\<lambda>keyword. prefix keyword line) product_keywords then
                  st\<lparr>in_continuation := False, name_buffer := name_buffer st @ [line],
                     idx := idx st + 1\<rparr>
                else if contains [36] line then st\<lparr>idx := idx st + 1\<rparr>
                else st\<lparr>idx := idx st + 1\<rparr>)
             else
               (if contains [36] line then st\<lparr>idx := idx st + 1\<rparr>
                else st\<lparr>name_buffer := name_buffer st @ [line], idx := idx st + 1\<rparr>)))"

text \<open>\<open>while i < n\<close>, with \<open>n = len(lines)\<close>.\<close>

function scan_loop :: "str list \<Rightarrow> scan_state \<Rightarrow> scan_state" where
  "scan_loop lines st =
     (if idx st < length lines then scan_loop lines (process_line st (lines ! idx st))
      else st)"
  by pat_completeness auto
termination
  by (relation "measure (\<lambda>(lines, st). length lines - idx st)")
     (auto simp: process_line_def Let_def split: option.split prod.split)

definition init_state :: scan_state where
  "init_state = \<lparr>idx = 0, rows = [], name_buffer = [], in_continuation = False\<rparr>"

definition extract_rows_from_text :: "str list \<Rightarrow> raw_row list" where
  "extract_rows_from_text lines = rows (scan_loop lines init_state)"

section \<open>Record assembler\<close>

text \<open>
  A cell of the table is None, a string, a float (see \<open>py_float\<close>) or an integer. A
  data frame is its column labels and its rows, each row holding one cell per column.
\<close>

datatype cell = CNone | CStr str | CFloat rat | CInt int

record dataframe =
  columns :: "str list"
  records :: "cell list list"

datatype error = ValueError str | KeyError str

text \<open>
  Modelled from the spec: \<open>STANDARD_COLUMNS\<close> of \<open>src/core/schema.py\<close>, a module that
  \<open>idc_pdf.py\<close> imports and that is not among the sources; the spec gives the
  canonical column order.
\<close>

definition STANDARD_COLUMNS :: "str list" where
  "STANDARD_COLUMNS =
    [py ''supplier'', py ''supplier_sku'', py ''title'', py ''brand'', py ''model'',
     py ''ean_upc'', py ''category'', py ''condition'', py ''cost_x1_usd'',
     py ''cost_x3_usd'', py ''cost_x6_usd'', py ''tax_included'', py ''stock'',
     py ''eta_text'', py ''source_file'']"

text \<open>
  \<open>pd.DataFrame(out)\<close> for a list of dicts: the columns are the keys in the order in
  which they are first seen, and a key that a dict lacks gives an empty cell.
\<close>

fun first_seen :: "'a list \<Rightarrow> 'a list \<Rightarrow> 'a list" where
  "first_seen seen [] = []"
| "first_seen seen (x # xs) =
     (if x \<in> set seen then first_seen seen xs else x # first_seen (x # seen) xs)"

definition DataFrame_of_dicts :: "(str \<times> cell) list list \<Rightarrow> dataframe" where
  "DataFrame_of_dicts out =
     (let cols = first_seen [] (concat (map (map fst) out)) in
      \<lparr>columns = cols,
       records = map (\<lambda>d. map (\<lambda>c. case map_of d c of None \<Rightarrow> CNone | Some v \<Rightarrow> v) cols) out\<rparr>)"

definition DataFrame_of_columns :: "str list \<Rightarrow> dataframe" where
  "DataFrame_of_columns cols = \<lparr>columns = cols, records = []\<rparr>"

definition df_empty :: "dataframe \<Rightarrow> bool" where
  "df_empty df \<longleftrightarrow> columns df = [] \<or> records df = []"

text \<open>\<open>df[c] = None\<close> for a label that is not a column yet.\<close>

definition df_add_column :: "str \<Rightarrow> dataframe \<Rightarrow> dataframe" where
  "df_add_column c df =
     \<lparr>columns = columns df @ [c], records = map (\<lambda>r. r @ [CNone]) (records df)\<rparr>"

text \<open>\<open>df[labels]\<close>: the listed columns in the listed order, KeyError if one is missing.\<close>

fun index_of :: "'a \<Rightarrow> 'a list \<Rightarrow> nat option" where
  "index_of x [] = None"
| "index_of x (y # ys) = (if x = y then Some 0 else map_option Suc (index_of x ys))"

definition df_select :: "str list \<Rightarrow> dataframe \<Rightarrow> error + dataframe" where
  "df_select labels df =
     (case find (\<lambda>c. c \<notin> set (columns df)) labels of
        Some c \<Rightarrow> Inl (KeyError c)
      | None \<Rightarrow>
          Inr \<lparr>columns = labels,
               records = map (\<lambda>r. map (\<lambda>c. r ! the (index_of c (columns df))) labels)
                           (records df)\<rparr>)"

text \<open>
  \<open>str.splitlines()\<close>: the text is cut at each line boundary (\<open>\r\n\<close> counts once),
  and a boundary at the very end opens no further line.
\<close>

definition is_linebreak :: "cp \<Rightarrow> bool" where
  "is_linebreak c \<longleftrightarrow> c \<in> set [10, 11, 12, 13, 28, 29, 30, 133, 8232, 8233]"

fun splitlines_from :: "str \<Rightarrow> str \<Rightarrow> str list" where
  "splitlines_from cur [] = (if cur = [] then [] else [cur])"
| "splitlines_from cur [c] =
     (if is_linebreak c then [cur] else [cur @ [c]])"
| "splitlines_from cur (c # d # cs) =
     (if c = 13 \<and> d = 10 then cur # splitlines_from [] cs
      else if is_linebreak c then cur # splitlines_from [] (d # cs)
      else splitlines_from (cur @ [c]) (d # cs))"

definition splitlines :: "str \<Rightarrow> str list" where
  "splitlines text = splitlines_from [] text"

text \<open>
  The loop over \<open>pdf.pages\<close>: \<open>pages\<close> holds what \<open>page.extract_text()\<close> returns for
  each page (None when a page has no text).
\<close>

definition page_lines :: "str option \<Rightarrow> str list" where
  "page_lines extracted =
     (let text = (case extracted of None \<Rightarrow> [] | Some t \<Rightarrow> t) in
      map py_strip (filter (\<lambda>ln. py_strip ln \<noteq> []) (splitlines text)))"

definition opt_cell :: "('a \<Rightarrow> cell) \<Rightarrow> 'a option \<Rightarrow> cell" where
  "opt_cell f v = (case v of None \<Rightarrow> CNone | Some x \<Rightarrow> f x)"

definition record_of_row :: "str \<Rightarrow> str \<Rightarrow> raw_row \<Rightarrow> (str \<times> cell) list" where
  "record_of_row supplier_name p_name row =
    [(py ''supplier'', CStr supplier_name),
     (py ''supplier_sku'', CStr (r_sku row)),
     (py ''title'', CStr (r_name row)),
     (py ''brand'', CNone),
     (py ''model'', CNone),
     (py ''ean_upc'', CNone),
     (py ''category'', CNone),
     (py ''condition'', CNone),
     (py ''cost_x1_usd'', opt_cell CFloat (parse_price_to_float (r_x1 row))),
     (py ''cost_x3_usd'', opt_cell CFloat (parse_price_to_float (r_x3 row))),
     (py ''cost_x6_usd'', opt_cell CFloat (parse_price_to_float (r_x6 row))),
     (py ''tax_included'', CStr (py ''no'')),
     (py ''stock'', opt_cell CInt (parse_stock (r_stock row))),
     (py ''eta_text'', if r_eta row \<noteq> [] then CStr (py_strip (r_eta row)) else CNone),
     (py ''source_file'', CStr p_name)]"

text \<open>
  \<open>ingest_idc_pdf\<close> from the extracted page texts on: \<open>p_name\<close> is \<open>Path(input_path).name\<close>.
\<close>

definition ingest_idc_pdf :: "str option list \<Rightarrow> str \<Rightarrow> str \<Rightarrow> error + dataframe" where
  "ingest_idc_pdf pages supplier_name p_name =
     (let all_lines = concat (map page_lines pages);
          raw_rows = extract_rows_from_text all_lines;
          out = map (record_of_row supplier_name p_name) raw_rows;
          df = DataFrame_of_dicts out;
          df1 = (if df_empty df then DataFrame_of_columns STANDARD_COLUMNS else df);
          df2 = fold (\<lambda>c d. if c \<notin> set (columns d) then df_add_column c d else d)
                  STANDARD_COLUMNS df1
      in df_select STANDARD_COLUMNS df2)"

section \<open>Provider registry\<close>

text \<open>
  \<open>REGISTRY\<close> is a dict, which keeps its keys in insertion order: a list of pairs with
  distinct keys. The registry is passed and returned where the source reads and
  writes the module variable. \<open>repr_str\<close> is \<open>repr\<close> on strings, which the error
  message applies to every key.
\<close>

type_synonym 'f registry = "(str \<times> 'f) list"

definition register :: "str \<Rightarrow> 'f \<Rightarrow> 'f registry \<Rightarrow> 'f registry \<times> 'f" where
  "register name func REGISTRY = (AList.update name func REGISTRY, func)"

definition repr_list :: "(str \<Rightarrow> str) \<Rightarrow> str list \<Rightarrow> str" where
  "repr_list repr_str xs = py ''['' @ join (py '', '') (map repr_str xs) @ py '']''"

definition get_provider :: "(str \<Rightarrow> str) \<Rightarrow> 'f registry \<Rightarrow> str \<Rightarrow> error + 'f" where
  "get_provider repr_str REGISTRY name =
     (case map_of REGISTRY name of
        None \<Rightarrow>
          Inl (ValueError (py ''Proveedor no registrado: '' @ name @ py ''. '' @
                           py ''Disponibles: '' @ repr_list repr_str (map fst REGISTRY)))
      | Some func \<Rightarrow> Inr func)"

section \<open>Reference definitions for the properties\<close>

text \<open>The body of the \<open>while\<close> loop as a function of the state alone.\<close>

definition loop_body :: "str list \<Rightarrow> scan_state \<Rightarrow> scan_state" where
  "loop_body lines = (\<lambda>st. process_line st (lines ! idx st))"

text \<open>
  What a match of a pattern is, apart from the order in which the matcher looks for
  it: the text splits into one span per item, each span made of characters of the
  item's class and of a length its quantifier admits, and \<open>$\<close> stands where only the
  end or a final line feed follows.
\<close>

fun qok :: "quant \<Rightarrow> nat \<Rightarrow> bool" where
  "qok Once n = (n = 1)"
| "qok Opt n = (n \<le> 1)"
| "qok Star n = True"
| "qok Plus n = (1 \<le> n)"
| "qok (Times k) n = (n = k)"

fun spans_ok :: "item list \<Rightarrow> str list \<Rightarrow> str \<Rightarrow> bool" where
  "spans_ok [] gs r = (gs = [])"
| "spans_ok (Eol # its) gs r =
     (case gs of [] \<Rightarrow> False
      | g # gs' \<Rightarrow> g = [] \<and> (concat gs' @ r = [] \<or> concat gs' @ r = [10]) \<and> spans_ok its gs' r)"
| "spans_ok (Rep p q # its) gs r =
     (case gs of [] \<Rightarrow> False
      | g # gs' \<Rightarrow> list_all p g \<and> qok q (length g) \<and> spans_ok its gs' r)"

text \<open>
  The normalizers and the price scan said without patterns, to compare with the
  definitions above. \<open>ci_prefix word s\<close>: \<open>s\<close> begins with \<open>word\<close>, letter case ignored.
\<close>

fun ci_prefix :: "str \<Rightarrow> str \<Rightarrow> bool" where
  "ci_prefix [] s = True"
| "ci_prefix (k # ks) [] = False"
| "ci_prefix (k # ks) (c # cs) = (lit_i k c \<and> ci_prefix ks cs)"

text \<open>
  The first currency-like numeric substring of a text: the first maximal run of digits,
  dots and commas. The separator rule of the Price Normalizer, applied to it.
\<close>

definition first_amount_token :: "str \<Rightarrow> str" where
  "first_amount_token text =
     takeWhile is_amount_char (dropWhile (\<lambda>c. \<not> is_amount_char c) text)"

definition separator_rule :: "str \<Rightarrow> str" where
  "separator_rule tok =
     (if 46 \<in> set tok \<and> 44 \<in> set tok
      then map (\<lambda>c. if c = 44 then 46 else c) (filter (\<lambda>c. c \<noteq> 46) tok)
      else if 44 \<in> set tok then map (\<lambda>c. if c = 44 then 46 else c) tok
      else tok)"

definition price_spec :: "str \<Rightarrow> rat option" where
  "price_spec text =
     (let tok = first_amount_token text in
      if tok = [] then None else py_float (separator_rule tok))"

text \<open>
  The digits of an integer that stands at the start of \<open>s\<close>, after an optional \<open>+\<close>,
  and immediately before the marker \<open>UNIDADES\<close> (whitespace may come between). The
  Stock Normalizer takes the leftmost position of the text that has one.
\<close>

definition units_count_at :: "str \<Rightarrow> str option" where
  "units_count_at s =
     (let t = (case s of [] \<Rightarrow> [] | c # cs \<Rightarrow> if c = 43 then cs else s);
          ds = takeWhile is_decimal t;
          u = dropWhile is_space (dropWhile is_decimal t)
      in if ds \<noteq> [] \<and> ci_prefix (py ''UNIDADES'') u then Some ds else None)"

fun leftmost :: "(str \<Rightarrow> 'a option) \<Rightarrow> str \<Rightarrow> 'a option" where
  "leftmost f [] = f []"
| "leftmost f (c # cs) = (case f (c # cs) of Some y \<Rightarrow> Some y | None \<Rightarrow> leftmost f cs)"

definition stock_spec :: "str \<Rightarrow> int option" where
  "stock_spec text =
     (case leftmost units_count_at text of None \<Rightarrow> None | Some ds \<Rightarrow> py_int ds)"

text \<open>
  The amount of a price that starts at the start of \<open>s\<close>: \<open>$\<close>, the amount, \<open>+\<close> and
  \<open>iva\<close> in any letter case, with optional whitespace between them. The price tiers of
  a line are \<open>$\<close> and the amount of every such price, from left to right.
\<close>

definition iva_price_at :: "str \<Rightarrow> str option" where
  "iva_price_at s =
     (case s of [] \<Rightarrow> None
      | c # t \<Rightarrow>
          (let u = dropWhile is_space t;
               amt = takeWhile is_amount_char u;
               v = dropWhile is_space (dropWhile is_amount_char u)
           in case v of [] \<Rightarrow> None
              | p # w \<Rightarrow>
                  if c = 36 \<and> amt \<noteq> [] \<and> p = 43
                     \<and> ci_prefix (py ''iva'') (dropWhile is_space w)
                  then Some amt else None))"

fun occurrences :: "(str \<Rightarrow> 'a option) \<Rightarrow> str \<Rightarrow> 'a list" where
  "occurrences f [] = []"
| "occurrences f (c # cs) =
     (case f (c # cs) of None \<Rightarrow> occurrences f cs | Some y \<Rightarrow> y # occurrences f cs)"

definition price_tiers :: "str \<Rightarrow> str list" where
  "price_tiers line = map (\<lambda>amt. 36 # amt) (occurrences iva_price_at line)"

text \<open>
  A cleaned name: it starts and ends with a character that is not whitespace, and
  each whitespace character in it is a blank that stands between two such characters.
\<close>

fun single_spaced :: "str \<Rightarrow> bool" where
  "single_spaced [] = True"
| "single_spaced [c] = (\<not> is_space c)"
| "single_spaced (c # d # cs) =
     (\<not> is_space c \<and>
      (if is_space d then d = 32 \<and> cs \<noteq> [] \<and> single_spaced cs else single_spaced (d # cs)))"

text \<open>The end of the price pattern, from \<open>+\<close> on.\<close>

definition iva_tail :: "item list" where
  "iva_tail = Rep (lit 43) Once # Rep is_space Star # literal_i (py ''iva'')"

text \<open>
  A trimmed line that begins with a run of exactly six digits, followed by whitespace
  and by further text up to the end of the line (no line feed in it). Such a line
  opens a record when it is not a noise line and holds a \<open>$\<close>.
\<close>

definition sku_line :: "str \<Rightarrow> bool" where
  "sku_line line \<longleftrightarrow>
     length (takeWhile is_decimal line) = 6 \<and>
     (let u = drop 6 line in
      u \<noteq> [] \<and> is_space (hd u) \<and> dropWhile is_space u \<noteq> []
      \<and> 10 \<notin> set (dropWhile is_space u))"

definition opens_record :: "str \<Rightarrow> bool" where
  "opens_record line \<longleftrightarrow> \<not> is_noise line \<and> sku_line line \<and> 36 \<in> set line"

text \<open>
  The tier at a position of a list of price strings, empty when the list is too short.
  The fields of a tuple other than the name, and what they are for a line that opens a
  record.
\<close>

definition tier :: "nat \<Rightarrow> str list \<Rightarrow> str" where
  "tier k prices = (if k < length prices then prices ! k else [])"

definition row_key :: "raw_row \<Rightarrow> str \<times> str \<times> str \<times> str \<times> str \<times> str" where
  "row_key r = (r_sku r, r_x1 r, r_x3 r, r_x6 r, r_stock r, r_eta r)"

definition line_key :: "str \<Rightarrow> str \<times> str \<times> str \<times> str \<times> str \<times> str" where
  "line_key line =
     (take 6 line, tier 0 (price_tiers line), tier 1 (price_tiers line),
      tier 2 (price_tiers line), line, line)"

text \<open>The state of the scan with its rows and index set aside.\<close>

definition fresh :: "scan_state \<Rightarrow> scan_state" where
  "fresh st = \<lparr>idx = 0, rows = [], name_buffer = name_buffer st,
               in_continuation = in_continuation st\<rparr>"

section \<open>Auxiliary facts\<close>

declare scan_loop.simps [simp del] finditer.simps [simp del] re_sub.simps [simp del]

subsection \<open>Character classes\<close>

lemma py_simps:
  "py [] = []" "py (c # cs) = of_char c # py cs"
  by (simp_all add: py_def)

lemma is_decimal_iff: "is_decimal c \<longleftrightarrow> list_ex (\<lambda>z. z \<le> c \<and> c < z + 10) nd_zeros"
  by (auto simp: is_decimal_def decimal_value_def find_None_iff list_ex_iff)

lemma space_cases:
  "is_space c \<Longrightarrow> c \<le> 32 \<or> c = 133 \<or> c = 160 \<or> c = 5760 \<or> (8192 \<le> c \<and> c \<le> 8287) \<or> c = 12288"
  unfolding is_space_def by auto

lemma decimal_cases:
  "is_decimal c \<Longrightarrow> 48 \<le> c \<and> c \<noteq> 133 \<and> c \<noteq> 160 \<and> c \<noteq> 5760 \<and> \<not> (8192 \<le> c \<and> c \<le> 8490) \<and> c \<noteq> 12288
     \<and> \<not> (58 \<le> c \<and> c \<le> 1000)"
  unfolding is_decimal_iff nd_zeros_def list_ex_iff by (elim bexE) (simp, elim disjE, simp_all)


lemma not_decimal_space: "is_space c \<Longrightarrow> \<not> is_decimal c"
  using space_cases [of c] decimal_cases [of c] by auto

lemma space_not_amount: "is_space c \<Longrightarrow> \<not> is_amount_char c"
  using space_cases [of c] by (auto simp: is_amount_char_def)

lemma space_not_dollar: "is_space c \<Longrightarrow> c \<noteq> 36"
  unfolding is_space_def by auto

lemma space_not_plus: "is_space c \<Longrightarrow> c \<noteq> 43"
  unfolding is_space_def by auto

lemma lit_i_cases: "lit_i k c \<Longrightarrow> 65 \<le> k \<Longrightarrow> k \<le> 122 \<Longrightarrow> (65 \<le> c \<and> c \<le> 122) \<or> c = 304 \<or> c = 305 \<or> c = 383 \<or> c = 8490"
  by (auto simp: lit_i_def ignorecase_set_def Let_def split: if_splits)

lemma space_not_letter: "is_space c \<Longrightarrow> 65 \<le> k \<Longrightarrow> k \<le> 122 \<Longrightarrow> \<not> lit_i k c"
  using space_cases [of c] lit_i_cases [of k c] by auto

lemma decimal_not_letter: "is_decimal c \<Longrightarrow> 65 \<le> k \<Longrightarrow> k \<le> 122 \<Longrightarrow> \<not> lit_i k c"
  using decimal_cases [of c] lit_i_cases [of k c] by auto

lemma decimal_not_plus: "is_decimal c \<Longrightarrow> c \<noteq> 43"
  using decimal_cases [of c] by auto

lemma decimal_not_dollar: "is_decimal c \<Longrightarrow> c \<noteq> 36"
  using decimal_cases [of c] by auto

lemma amount_not_space: "is_amount_char c \<Longrightarrow> \<not> is_space c"
  using space_not_amount by blast

lemma amount_not_plus: "is_amount_char c \<Longrightarrow> c \<noteq> 43"
  by (auto simp: is_amount_char_def)

lemma amount_not_dollar: "is_amount_char c \<Longrightarrow> c \<noteq> 36"
  by (auto simp: is_amount_char_def)

lemma ascii_digit_value: "48 \<le> c \<Longrightarrow> c \<le> 57 \<Longrightarrow> decimal_value c = Some (c - 48)"
  by (simp add: decimal_value_def nd_zeros_def)

subsection \<open>Strip\<close>

lemma py_strip_Nil [simp]: "py_strip [] = []"
  by (simp add: py_strip_def)

lemma py_strip_split: "\<exists>u. dropWhile is_space s = py_strip s @ u \<and> list_all is_space u"
proof -
  let ?t = "dropWhile is_space s"
  have "rev (takeWhile is_space (rev ?t) @ dropWhile is_space (rev ?t)) = ?t"
    by (simp only: takeWhile_dropWhile_id rev_rev_ident)
  then have "?t = py_strip s @ rev (takeWhile is_space (rev ?t))"
    by (simp only: rev_append py_strip_def)
  moreover have "list_all is_space (rev (takeWhile is_space (rev ?t)))"
    by (simp add: list_all_iff) (meson set_takeWhileD)
  ultimately show ?thesis by blast
qed

lemma py_strip_last: "py_strip s \<noteq> [] \<Longrightarrow> \<not> is_space (last (py_strip s))"
  unfolding py_strip_def by (simp add: last_rev hd_dropWhile)

lemma py_strip_hd: "py_strip s \<noteq> [] \<Longrightarrow> \<not> is_space (hd (py_strip s))"
proof -
  assume ne: "py_strip s \<noteq> []"
  obtain u where u: "dropWhile is_space s = py_strip s @ u" using py_strip_split by blast
  then have "dropWhile is_space s \<noteq> []" using ne by simp
  then have "\<not> is_space (hd (dropWhile is_space s))" by (rule hd_dropWhile)
  then show ?thesis using u ne by simp
qed

lemma py_strip_id: "s = [] \<or> (\<not> is_space (hd s) \<and> \<not> is_space (last s)) \<Longrightarrow> py_strip s = s"
proof (cases "s = []")
  case True
  then show ?thesis by simp
next
  case False
  assume "s = [] \<or> (\<not> is_space (hd s) \<and> \<not> is_space (last s))"
  with False have h: "\<not> is_space (hd s)" and l: "\<not> is_space (last s)" by auto
  have 1: "dropWhile is_space s = s" using h by (simp add: dropWhile_eq_self_iff)
  have "\<not> is_space (hd (rev s))" using l False by (simp add: hd_rev)
  then have 2: "dropWhile is_space (rev s) = rev s" by (simp add: dropWhile_eq_self_iff)
  show ?thesis by (simp add: py_strip_def 1 2)
qed

lemma py_strip_idem: "py_strip (py_strip s) = py_strip s"
  using py_strip_id [of "py_strip s"] py_strip_hd [of s] py_strip_last [of s] by blast

subsection \<open>The matcher\<close>

lemma first_some_None: "first_some f xs = None \<longleftrightarrow> (\<forall>x\<in>set xs. f x = None)"
  by (induction xs) (auto split: option.splits)

lemma first_some_SomeD: "first_some f xs = Some y \<Longrightarrow> \<exists>x\<in>set xs. f x = Some y"
  by (induction xs) (auto split: option.splits)

lemma first_some_greedy:
  assumes "\<And>n. n \<in> set ns \<Longrightarrow> f n = None"
  shows "first_some f (m # ns) = f m"
  using assms by (cases "f m") (simp_all add: first_some_None)

lemma first_some_single: "first_some f [x] = f x"
  by (cases "f x") simp_all

lemma lens_sound: "n \<in> set (lens q m) \<Longrightarrow> n \<le> m \<and> qok q n"
  by (cases q) (auto split: if_splits)

lemma lens_complete: "qok q n \<Longrightarrow> n \<le> m \<Longrightarrow> n \<in> set (lens q m)"
  by (cases q) auto

lemma take_takeWhile_all: "n \<le> length (takeWhile p s) \<Longrightarrow> list_all p (take n s)"
proof -
  assume n: "n \<le> length (takeWhile p s)"
  have "take n s = take n (takeWhile p s)"
    using n by (metis takeWhile_eq_take take_take min.absorb1)
  then show ?thesis
    by (metis in_set_takeD list_all_iff set_takeWhileD)
qed

lemma match_here_sound:
  "match_here rx s = Some (gs, r) \<Longrightarrow> s = concat gs @ r \<and> spans_ok rx gs r"
proof (induction rx s arbitrary: gs r rule: match_here.induct)
  case (1 s)
  then show ?case by simp
next
  case (2 its s)
  then show ?case by (auto split: if_splits)
next
  case (3 p q its s)
  from "3.prems" obtain n where n: "n \<in> set (lens q (length (takeWhile p s)))"
    and m: "map_option (\<lambda>(gs, r). (take n s # gs, r)) (match_here its (drop n s)) = Some (gs, r)"
    by (auto dest: first_some_SomeD)
  from m obtain gs' where gs': "match_here its (drop n s) = Some (gs', r)" "gs = take n s # gs'"
    by auto
  from "3.IH" [OF gs'(1)] have ih: "drop n s = concat gs' @ r" "spans_ok its gs' r" by auto
  have "n \<le> length (takeWhile p s)" "qok q n" using lens_sound [OF n] by auto
  moreover have "n \<le> length s"
    using \<open>n \<le> length (takeWhile p s)\<close> length_takeWhile_le [of p s] by simp
  ultimately show ?case
    using ih gs'(2) take_takeWhile_all [of n p s]
    by (simp) (metis append_take_drop_id)
qed

lemma length_takeWhile_append_ge:
  "list_all p g \<Longrightarrow> length g \<le> length (takeWhile p (g @ t))"
  by (induction g) auto

lemma match_here_complete:
  "spans_ok rx gs r \<Longrightarrow> match_here rx (concat gs @ r) \<noteq> None"
proof (induction rx arbitrary: gs)
  case Nil
  then show ?case by simp
next
  case (Cons it its)
  show ?case
  proof (cases it)
    case (Rep p q)
    with Cons.prems obtain g gs' where g: "gs = g # gs'" "list_all p g" "qok q (length g)"
      "spans_ok its gs' r" by (auto split: list.splits)
    let ?s = "concat gs @ r"
    have "length g \<in> set (lens q (length (takeWhile p ?s)))"
      using g length_takeWhile_append_ge [of p g "concat gs' @ r"] by (simp add: lens_complete)
    moreover have "match_here its (drop (length g) ?s) \<noteq> None"
      using Cons.IH [OF g(4)] g(1) by simp
    ultimately show ?thesis
      unfolding Rep by (auto simp: first_some_None simp del: lens.simps)
  next
    case Eol
    with Cons.prems obtain gs' where g: "gs = [] # gs'"
      "concat gs' @ r = [] \<or> concat gs' @ r = [10]" "spans_ok its gs' r"
      by (auto split: list.splits)
    then show ?thesis using Cons.IH [OF g(3)] Eol by auto
  qed
qed


text \<open>Where the rest of the pattern cannot start inside the run, greedy is decisive.\<close>

lemma shorter_fails:
  assumes "\<And>c t. p c \<Longrightarrow> match_here its (c # t) = None"
    and "n < length (takeWhile p s)"
  shows "match_here its (drop n s) = None"
proof -
  have len: "n < length s" using assms(2) length_takeWhile_le [of p s] by simp
  have "takeWhile p s ! n \<in> set (takeWhile p s)" using assms(2) by simp
  then have "p (s ! n)" using assms(2) by (metis set_takeWhileD takeWhile_nth)
  moreover have "drop n s = s ! n # drop (Suc n) s" using len by (simp add: Cons_nth_drop_Suc)
  ultimately show ?thesis using assms(1) by simp
qed

lemma match_Once:
  "match_here (Rep p Once # its) s =
     (case s of [] \<Rightarrow> None
      | c # t \<Rightarrow> if p c then map_option (\<lambda>(gs, r). ([c] # gs, r)) (match_here its t) else None)"
  by (cases s) (auto split: option.splits)

lemma match_Times:
  "match_here (Rep p (Times k) # its) s =
     (if k \<le> length (takeWhile p s)
      then map_option (\<lambda>(gs, r). (take k s # gs, r)) (match_here its (drop k s)) else None)"
  by (simp split: option.splits)

lemma match_Star:
  assumes "\<And>c t. p c \<Longrightarrow> match_here its (c # t) = None"
  shows "match_here (Rep p Star # its) s =
     map_option (\<lambda>(gs, r). (takeWhile p s # gs, r)) (match_here its (dropWhile p s))"
proof -
  let ?m = "length (takeWhile p s)"
  let ?f = "\<lambda>n. map_option (\<lambda>(gs, r). (take n s # gs, r)) (match_here its (drop n s))"
  have "lens Star ?m = ?m # rev [0..<?m]" by simp
  moreover have "\<And>n. n \<in> set (rev [0..<?m]) \<Longrightarrow> ?f n = None"
    using shorter_fails [OF assms] by simp
  ultimately have "match_here (Rep p Star # its) s = ?f ?m"
    using first_some_greedy [of "rev [0..<?m]" ?f ?m] by (simp del: lens.simps)
  then show ?thesis
    by (simp add: takeWhile_eq_take [symmetric] dropWhile_eq_drop [symmetric])
qed

lemma match_Plus:
  assumes "\<And>c t. p c \<Longrightarrow> match_here its (c # t) = None"
  shows "match_here (Rep p Plus # its) s =
     (if takeWhile p s = [] then None
      else map_option (\<lambda>(gs, r). (takeWhile p s # gs, r)) (match_here its (dropWhile p s)))"
proof (cases "takeWhile p s = []")
  case True
  then show ?thesis by simp
next
  case False
  let ?m = "length (takeWhile p s)"
  let ?f = "\<lambda>n. map_option (\<lambda>(gs, r). (take n s # gs, r)) (match_here its (drop n s))"
  have "1 \<le> ?m" using False by (simp add: Suc_leI)
  then have "lens Plus ?m = ?m # rev [1..<?m]" by simp
  moreover have "\<And>n. n \<in> set (rev [1..<?m]) \<Longrightarrow> ?f n = None"
    using shorter_fails [OF assms] by simp
  ultimately have "match_here (Rep p Plus # its) s = ?f ?m"
    using first_some_greedy [of "rev [1..<?m]" ?f ?m] by (simp del: lens.simps)
  then show ?thesis
    using False by (simp add: takeWhile_eq_take [symmetric] dropWhile_eq_drop [symmetric])
qed

lemma match_Opt:
  assumes "\<And>c t. p c \<Longrightarrow> match_here its (c # t) = None"
  shows "match_here (Rep p Opt # its) s =
     (case s of [] \<Rightarrow> map_option (\<lambda>(gs, r). ([] # gs, r)) (match_here its [])
      | c # t \<Rightarrow> if p c then map_option (\<lambda>(gs, r). ([c] # gs, r)) (match_here its t)
                 else map_option (\<lambda>(gs, r). ([] # gs, r)) (match_here its (c # t)))"
proof (cases s)
  case Nil
  then show ?thesis by (simp split: option.splits)
next
  case (Cons c t)
  show ?thesis
  proof (cases "p c")
    case True
    then show ?thesis using Cons assms [OF True, of t]
      by (cases "match_here its t") (auto split: option.splits)
  next
    case False
    then show ?thesis using Cons by (simp split: option.splits)
  qed
qed

subsection \<open>The scan\<close>

lemma idx_process_line: "idx (process_line st raw) = idx st + 1"
  by (simp add: process_line_def Let_def split: option.split prod.split)

lemma scan_loop_funpow:
  "scan_loop lines st = (loop_body lines ^^ (length lines - idx st)) st"
proof (induction lines st rule: scan_loop.induct)
  case (1 lines st)
  show ?case
  proof (cases "idx st < length lines")
    case True
    then have d: "length lines - idx st = Suc (length lines - idx (process_line st (lines ! idx st)))"
      by (simp add: idx_process_line)
    have "scan_loop lines st = scan_loop lines (process_line st (lines ! idx st))"
      using True by (subst scan_loop.simps) simp
    also have "\<dots> = (loop_body lines ^^ (length lines - idx (process_line st (lines ! idx st))))
                      (loop_body lines st)"
      using 1 True by (simp add: loop_body_def)
    also have "\<dots> = (loop_body lines ^^ (length lines - idx st)) st"
      unfolding d by (simp add: funpow_swap1)
    finally show ?thesis .
  next
    case False
    then show ?thesis by (subst scan_loop.simps) simp
  qed
qed

lemma idx_funpow: "idx ((loop_body lines ^^ k) st) = idx st + k"
  by (induction k) (simp_all add: loop_body_def idx_process_line)

lemma scan_loop_fold:
  "scan_loop lines st = fold (\<lambda>l s. process_line s l) (drop (idx st) lines) st"
proof (induction lines st rule: scan_loop.induct)
  case (1 lines st)
  show ?case
  proof (cases "idx st < length lines")
    case True
    then have "drop (idx st) lines = lines ! idx st # drop (Suc (idx st)) lines"
      by (simp add: Cons_nth_drop_Suc)
    then show ?thesis
      using 1 True by (subst scan_loop.simps) (simp add: idx_process_line)
  next
    case False
    then show ?thesis by (subst scan_loop.simps) simp
  qed
qed

subsection \<open>The registry\<close>

lemma get_provider_missing:
  "name \<notin> set (map fst REGISTRY) \<Longrightarrow>
     get_provider repr_str REGISTRY name =
       Inl (ValueError (py ''Proveedor no registrado: '' @ name @ py ''. Disponibles: '' @
                        repr_list repr_str (map fst REGISTRY)))"
proof -
  assume "name \<notin> set (map fst REGISTRY)"
  then have "map_of REGISTRY name = None" by (simp add: map_of_eq_None_iff)
  then show ?thesis by (simp add: get_provider_def py_def)
qed

lemma get_provider_present:
  "name \<in> set (map fst REGISTRY) \<Longrightarrow>
     \<exists>func. (name, func) \<in> set REGISTRY \<and> get_provider repr_str REGISTRY name = Inr func"
proof -
  assume "name \<in> set (map fst REGISTRY)"
  then obtain func where f: "map_of REGISTRY name = Some func"
    by (metis map_of_eq_None_iff not_None_eq set_map)
  then have "(name, func) \<in> set REGISTRY" by (rule map_of_SomeD)
  then show ?thesis using f by (auto simp: get_provider_def)
qed

lemma get_provider_registered:
  "get_provider repr_str (fst (register name func REGISTRY)) name = Inr func"
  by (simp add: get_provider_def register_def AList.update_conv')

subsection \<open>The patterns of the source\<close>

lemma match_Plus_end:
  "match_here [Rep p Plus] s =
     (if takeWhile p s = [] then None else Some ([takeWhile p s], dropWhile p s))"
proof (cases "takeWhile p s = []")
  case True
  then show ?thesis by simp
next
  case False
  let ?m = "length (takeWhile p s)"
  have "1 \<le> ?m" using False by (simp add: Suc_leI)
  then have "lens Plus ?m = ?m # rev [1..<?m]" by simp
  then have "match_here [Rep p Plus] s = Some ([take ?m s], drop ?m s)"
    by (simp del: lens.simps)
  then show ?thesis
    using False by (simp add: takeWhile_eq_take [symmetric] dropWhile_eq_drop [symmetric])
qed

lemma match_literal_i:
  "match_here (literal_i word @ its) s =
     (if ci_prefix word s
      then map_option (\<lambda>(gs, r). (map (\<lambda>c. [c]) (take (length word) s) @ gs, r))
             (match_here its (drop (length word) s))
      else None)"
proof (induction word s rule: ci_prefix.induct)
  case (1 s)
  then show ?case by (simp add: literal_i_def option.map_ident case_prod_unfold)
next
  case (2 k ks)
  then show ?case by (simp add: literal_i_def match_Once del: match_here.simps)
next
  case (3 k ks c cs)
  then show ?case
    by (simp add: literal_i_def match_Once option.map_comp comp_def case_prod_unfold
        del: match_here.simps)
qed

lemma match_literal_i_fails:
  "\<not> ci_prefix word s \<Longrightarrow> match_here (literal_i word @ its) s = None"
  by (simp add: match_literal_i)


lemma takeWhile_hd_not: "\<not> p c \<Longrightarrow> takeWhile p (c # t) = []"
  by simp

lemma amount_tail_fails:
  "\<not> is_amount_char c \<Longrightarrow> match_here [Rep is_amount_char Plus] (c # t) = None"
  by (simp add: match_Plus_end)

lemma match_space_amount:
  "match_here [Rep is_space Star, Rep is_amount_char Plus] t =
     (let u = dropWhile is_space t in
      if takeWhile is_amount_char u = [] then None
      else Some ([takeWhile is_space t, takeWhile is_amount_char u], dropWhile is_amount_char u))"
proof -
  have "\<And>c t. is_space c \<Longrightarrow> match_here [Rep is_amount_char Plus] (c # t) = None"
    using amount_tail_fails space_not_amount by blast
  from match_Star [of is_space "[Rep is_amount_char Plus]", OF this]
  show ?thesis by (simp add: match_Plus_end Let_def del: match_here.simps)
qed

lemma match_PRICE_RE:
  "match_here PRICE_RE s =
     (let t = (case s of [] \<Rightarrow> [] | c # cs \<Rightarrow> if c = 36 then cs else s);
          u = dropWhile is_space t in
      if takeWhile is_amount_char u = [] then None
      else Some ([take (length s - length t) s, takeWhile is_space t,
                  takeWhile is_amount_char u], dropWhile is_amount_char u))"
proof -
  have "\<And>c t. lit 36 c \<Longrightarrow>
          match_here [Rep is_space Star, Rep is_amount_char Plus] (c # t) = None"
    by (simp add: match_space_amount lit_def is_space_def is_amount_char_def
        del: match_here.simps)
  from match_Opt [of "lit 36" "[Rep is_space Star, Rep is_amount_char Plus]", OF this]
  show ?thesis
    unfolding PRICE_RE_def
    by (cases s) (simp_all add: match_space_amount Let_def lit_def del: match_here.simps)
qed


lemma first_amount_token_skip:
  assumes "\<And>x. x \<in> set pre \<Longrightarrow> \<not> is_amount_char x"
  shows "first_amount_token (pre @ u) = first_amount_token u"
  using assms by (simp add: first_amount_token_def)

lemma first_amount_token_here:
  "takeWhile is_amount_char u \<noteq> [] \<Longrightarrow> first_amount_token u = takeWhile is_amount_char u"
  by (cases u) (auto simp: first_amount_token_def split: if_splits)

lemma match_PRICE_RE_token:
  assumes "match_here PRICE_RE s = Some (gs, r)"
  shows "gs ! 2 = first_amount_token s \<and> gs ! 2 \<noteq> []"
proof -
  define t where "t = (case s of [] \<Rightarrow> [] | c # cs \<Rightarrow> if c = 36 then cs else s)"
  define u where "u = dropWhile is_space t"
  from assms have ne: "takeWhile is_amount_char u \<noteq> []"
    and g: "gs ! 2 = takeWhile is_amount_char u"
    by (auto simp: match_PRICE_RE Let_def t_def u_def split: if_splits)
  obtain pre where pre: "s = pre @ t" "\<And>x. x \<in> set pre \<Longrightarrow> \<not> is_amount_char x"
  proof (cases s)
    case Nil
    then show ?thesis using that [of "[]"] by (simp add: t_def)
  next
    case (Cons c cs)
    show ?thesis
    proof (cases "c = 36")
      case True
      then show ?thesis using that [of "[36]"] Cons by (simp add: t_def is_amount_char_def)
    next
      case False
      then show ?thesis using that [of "[]"] Cons by (simp add: t_def)
    qed
  qed
  have "t = takeWhile is_space t @ u" by (simp add: u_def)
  moreover have "\<And>x. x \<in> set (takeWhile is_space t) \<Longrightarrow> \<not> is_amount_char x"
    using space_not_amount by (meson set_takeWhileD)
  ultimately have "first_amount_token t = first_amount_token u"
    using first_amount_token_skip [of "takeWhile is_space t" u] by simp
  then have "first_amount_token s = first_amount_token u"
    using pre first_amount_token_skip [of pre t] by simp
  then show ?thesis using g ne first_amount_token_here [OF ne] by simp
qed

lemma match_PRICE_RE_None:
  assumes "match_here PRICE_RE (c # cs) = None"
  shows "\<not> is_amount_char c"
proof
  assume a: "is_amount_char c"
  then have "c \<noteq> 36" "\<not> is_space c" using amount_not_dollar amount_not_space by auto
  then have "match_here PRICE_RE (c # cs) \<noteq> None"
    using a by (simp add: match_PRICE_RE Let_def)
  then show False using assms by simp
qed

lemma search_PRICE_RE:
  "(case search PRICE_RE text of
      None \<Rightarrow> first_amount_token text = []
    | Some (skipped, gs, r) \<Rightarrow> gs ! 2 = first_amount_token text \<and> gs ! 2 \<noteq> [])"
proof (induction "text")
  case Nil
  then show ?case by (simp add: match_PRICE_RE first_amount_token_def)
next
  case (Cons c cs)
  show ?case
  proof (cases "match_here PRICE_RE (c # cs)")
    case None
    then have "first_amount_token (c # cs) = first_amount_token cs"
      using match_PRICE_RE_None [OF None] by (simp add: first_amount_token_def)
    then show ?thesis using Cons None by (auto split: option.splits)
  next
    case (Some a)
    then show ?thesis using match_PRICE_RE_token [of "c # cs"] by (cases a) auto
  qed
qed


subsection \<open>The price normalizer\<close>

lemma replace_char_delete: "replace_char old [] s = filter (\<lambda>c. c \<noteq> old) s"
  by (induction s) (simp_all add: replace_char_def)

lemma replace_char_single: "replace_char old [new] s = map (\<lambda>c. if c = old then new else c) s"
  by (induction s) (simp_all add: replace_char_def)

lemma first_amount_token_all: "list_all is_amount_char (first_amount_token s)"
  by (simp add: first_amount_token_def list_all_iff) (meson set_takeWhileD)

lemma py_strip_no_space: "list_all (\<lambda>c. \<not> is_space c) s \<Longrightarrow> py_strip s = s"
proof (cases "s = []")
  case True
  then show ?thesis by simp
next
  case False
  assume "list_all (\<lambda>c. \<not> is_space c) s"
  then have "\<not> is_space (hd s)" "\<not> is_space (last s)"
    using False by (simp_all add: list_all_iff)
  then show ?thesis using py_strip_id [of s] by simp
qed

lemma py_strip_amount: "list_all is_amount_char s \<Longrightarrow> py_strip s = s"
  by (rule py_strip_no_space) (auto simp: list_all_iff dest: amount_not_space)

lemma parse_price_eq_spec: "parse_price_to_float s = price_spec s"
proof (cases "search PRICE_RE s")
  case None
  then have "first_amount_token s = []" using search_PRICE_RE [of s] by simp
  then show ?thesis using None by (simp add: parse_price_to_float_def price_spec_def)
next
  case (Some a)
  obtain skipped gs r where a: "a = (skipped, gs, r)" by (cases a) auto
  have tok: "gs ! 2 = first_amount_token s" "first_amount_token s \<noteq> []"
    using search_PRICE_RE [of s] Some a by auto
  then have ne: "s \<noteq> []" by (auto simp: first_amount_token_def)
  have "py_strip (gs ! 2) = first_amount_token s"
    using tok(1) py_strip_amount [OF first_amount_token_all [of s]] by simp
  then show ?thesis
    using Some a ne tok(2)
    by (simp add: parse_price_to_float_def price_spec_def separator_rule_def Let_def
        replace_char_delete replace_char_single)
qed

lemma price_no_amount_char: "\<not> list_ex is_amount_char s \<Longrightarrow> price_spec s = None"
proof -
  assume "\<not> list_ex is_amount_char s"
  then have d: "dropWhile (\<lambda>c. \<not> is_amount_char c) s = []" by (simp add: list_ex_iff)
  show ?thesis unfolding price_spec_def first_amount_token_def d by simp
qed

lemmas price_eval = price_spec_def first_amount_token_def separator_rule_def py_float_def
  py_def is_amount_char_def digits_value_def ascii_digit_value Let_def

subsection \<open>The stock normalizer\<close>

lemma match_literal_i_end:
  "match_here (literal_i word) s =
     (if ci_prefix word s
      then Some (map (\<lambda>c. [c]) (take (length word) s), drop (length word) s) else None)"
  using match_literal_i [of word "[]" s] by simp

lemma match_space_word:
  assumes "\<And>c t. is_space c \<Longrightarrow> \<not> ci_prefix word (c # t)"
  shows "match_here (Rep is_space Star # literal_i word) t =
     (let u = dropWhile is_space t in
      if ci_prefix word u
      then Some (takeWhile is_space t # map (\<lambda>c. [c]) (take (length word) u),
                 drop (length word) u)
      else None)"
proof -
  have "\<And>c t. is_space c \<Longrightarrow> match_here (literal_i word) (c # t) = None"
    using assms by (simp add: match_literal_i_end)
  from match_Star [of is_space "literal_i word", OF this]
  show ?thesis by (simp add: match_literal_i_end Let_def del: match_here.simps)
qed

lemma UNIDADES_hd: "py ''UNIDADES'' = 85 # py ''NIDADES''"
  by (simp add: py_def)

lemma space_not_marker: "is_space c \<Longrightarrow> \<not> ci_prefix (py ''UNIDADES'') (c # t)"
  using space_not_letter [of c 85] by (simp add: UNIDADES_hd)

lemma decimal_not_marker: "is_decimal c \<Longrightarrow> \<not> ci_prefix (py ''UNIDADES'') (c # t)"
  using decimal_not_letter [of c 85] by (simp add: UNIDADES_hd)

lemma match_digits_marker:
  "match_here (Rep is_decimal Plus # Rep is_space Star # literal_i (py ''UNIDADES'')) t =
     (let ds = takeWhile is_decimal t; w = dropWhile is_decimal t; u = dropWhile is_space w in
      if ds \<noteq> [] \<and> ci_prefix (py ''UNIDADES'') u
      then Some (ds # takeWhile is_space w
                 # map (\<lambda>c. [c]) (take (length (py ''UNIDADES'')) u),
                 drop (length (py ''UNIDADES'')) u)
      else None)"
proof -
  have "\<And>c t. is_decimal c \<Longrightarrow>
          match_here (Rep is_space Star # literal_i (py ''UNIDADES'')) (c # t) = None"
  proof -
    fix c t assume d: "is_decimal c"
    then have "\<not> is_space c" using not_decimal_space by auto
    then show "match_here (Rep is_space Star # literal_i (py ''UNIDADES'')) (c # t) = None"
      using decimal_not_marker [OF d]
      by (simp add: match_space_word [OF space_not_marker] del: match_here.simps)
  qed
  from match_Plus [of is_decimal "Rep is_space Star # literal_i (py ''UNIDADES'')", OF this]
  show ?thesis
    by (simp add: match_space_word [OF space_not_marker] Let_def del: match_here.simps)
qed

lemma match_UNITS_RE:
  "match_here UNITS_RE s =
     (let t = (case s of [] \<Rightarrow> [] | c # cs \<Rightarrow> if c = 43 then cs else s);
          ds = takeWhile is_decimal t; w = dropWhile is_decimal t; u = dropWhile is_space w in
      if ds \<noteq> [] \<and> ci_prefix (py ''UNIDADES'') u
      then Some (take (length s - length t) s # ds # takeWhile is_space w
                 # map (\<lambda>c. [c]) (take (length (py ''UNIDADES'')) u),
                 drop (length (py ''UNIDADES'')) u)
      else None)"
proof -
  have "\<And>c t. lit 43 c \<Longrightarrow>
    match_here (Rep is_decimal Plus # Rep is_space Star # literal_i (py ''UNIDADES'')) (c # t) = None"
  proof -
    fix c :: nat and t assume "lit 43 c"
    then have "\<not> is_decimal c" using decimal_not_plus by (auto simp: lit_def)
    then show "match_here (Rep is_decimal Plus # Rep is_space Star # literal_i (py ''UNIDADES'')) (c # t) = None"
      by (simp add: match_digits_marker del: match_here.simps)
  qed
  from match_Opt [of "lit 43" "Rep is_decimal Plus # Rep is_space Star # literal_i (py ''UNIDADES'')", OF this]
  show ?thesis
    unfolding UNITS_RE_def
    by (cases s) (simp_all add: match_digits_marker Let_def lit_def del: match_here.simps)
qed


lemma search_leftmost:
  "map_option (\<lambda>(skipped, gs, r). h gs) (search rx s) =
     leftmost (\<lambda>s. map_option (\<lambda>(gs, r). h gs) (match_here rx s)) s"
  by (induction s) (auto split: option.splits simp: option.map_comp comp_def case_prod_unfold)

lemma units_group:
  "map_option (\<lambda>(gs, r). replace_char 43 [] (gs ! 0 @ gs ! 1)) (match_here UNITS_RE s) =
     units_count_at s"
proof -
  define t where "t = (case s of [] \<Rightarrow> [] | c # cs \<Rightarrow> if c = 43 then cs else s)"
  have ds: "filter (\<lambda>c. c \<noteq> 43) (takeWhile is_decimal t) = takeWhile is_decimal t"
    using decimal_not_plus by (simp add: filter_id_conv) (meson set_takeWhileD)
  have sg: "filter (\<lambda>c. c \<noteq> 43) (take (length s - length t) s) = []"
    by (cases s) (auto simp: t_def)
  show ?thesis
    using ds sg
    by (simp add: match_UNITS_RE units_count_at_def Let_def replace_char_delete
        t_def [symmetric])
qed

lemma parse_stock_eq_spec: "parse_stock s = stock_spec s"
proof (cases "s = []")
  case True
  then show ?thesis
    by (simp add: parse_stock_def stock_spec_def units_count_at_def)
next
  case False
  have "leftmost units_count_at s =
          map_option (\<lambda>(skipped, gs, r). replace_char 43 [] (gs ! 0 @ gs ! 1)) (search UNITS_RE s)"
    using search_leftmost [of "\<lambda>gs. replace_char 43 [] (gs ! 0 @ gs ! 1)" UNITS_RE s]
    by (simp only: units_group)
  then show ?thesis
    using False by (auto simp: parse_stock_def stock_spec_def split: option.splits)
qed


lemma is_decimal_ascii: "c < 1632 \<Longrightarrow> is_decimal c \<longleftrightarrow> 48 \<le> c \<and> c \<le> 57"
  unfolding is_decimal_iff nd_zeros_def by auto

lemma leftmost_None: "(\<And>k. f (drop k s) = None) \<Longrightarrow> leftmost f s = None"
proof (induction s)
  case Nil
  then show ?case using Nil [of 0] by simp
next
  case (Cons c cs)
  have "f (c # cs) = None" using Cons.prems [of 0] by simp
  moreover have "\<And>k. f (drop k cs) = None" using Cons.prems [of "Suc _"] by simp
  ultimately show ?case using Cons.IH by simp
qed

lemma units_count_at_marker:
  "units_count_at s \<noteq> None \<Longrightarrow> \<exists>k. ci_prefix (py ''UNIDADES'') (drop k s)"
proof -
  define t where "t = (case s of [] \<Rightarrow> [] | c # cs \<Rightarrow> if c = 43 then cs else s)"
  assume "units_count_at s \<noteq> None"
  then have m: "ci_prefix (py ''UNIDADES'') (dropWhile is_space (dropWhile is_decimal t))"
    by (auto simp: units_count_at_def Let_def t_def split: if_splits)
  have "\<exists>j. t = drop j s"
  proof (cases s)
    case Nil
    then show ?thesis by (simp add: t_def)
  next
    case (Cons c cs)
    show ?thesis
    proof (cases "c = 43")
      case True
      then have "t = drop 1 s" using Cons by (simp add: t_def)
      then show ?thesis by blast
    next
      case False
      then have "t = drop 0 s" using Cons by (simp add: t_def)
      then show ?thesis by blast
    qed
  qed
  then obtain j where "t = drop j s" by blast
  then have "dropWhile is_space (dropWhile is_decimal t) =
      drop (length (takeWhile is_space (dropWhile is_decimal t)) +
            (length (takeWhile is_decimal t) + j)) s"
    by (simp add: dropWhile_eq_drop)
  then show ?thesis using m by metis
qed

lemma stock_no_marker:
  assumes "\<And>k. \<not> ci_prefix (py ''UNIDADES'') (drop k s)"
  shows "stock_spec s = None"
proof -
  have "\<And>k. units_count_at (drop k s) = None"
  proof (rule ccontr)
    fix k assume "units_count_at (drop k s) \<noteq> None"
    then obtain j where "ci_prefix (py ''UNIDADES'') (drop j (drop k s))"
      using units_count_at_marker by blast
    then show False using assms [of "j + k"] by simp
  qed
  then show ?thesis by (simp add: stock_spec_def leftmost_None)
qed


lemma takeWhile_run:
  "list_all p xs \<Longrightarrow> ys = [] \<or> \<not> p (hd ys) \<Longrightarrow> takeWhile p (xs @ ys) = xs"
  by (induction xs) (auto simp: takeWhile_eq_Nil_iff)

lemma dropWhile_run:
  "list_all p xs \<Longrightarrow> ys = [] \<or> \<not> p (hd ys) \<Longrightarrow> dropWhile p (xs @ ys) = ys"
  by (induction xs) (auto simp: dropWhile_eq_self_iff)

lemma leftmost_skip:
  "(\<And>c t. c \<in> set pre \<Longrightarrow> f (c # t) = None) \<Longrightarrow> leftmost f (pre @ s) = leftmost f s"
  by (induction pre) simp_all

lemma units_count_at_here:
  assumes "sign = [] \<or> sign = [43]" "ds \<noteq> []" "list_all is_decimal ds" "list_all is_space ws"
    "ci_prefix (py ''UNIDADES'') post"
  shows "units_count_at (sign @ ds @ ws @ post) = Some ds"
proof -
  obtain u us where post: "post = u # us" "lit_i 85 u"
    using assms(5) by (cases post) (auto simp: UNIDADES_hd)
  have nu: "\<not> is_space u" "\<not> is_decimal u"
    using post(2) space_not_letter [of u 85] decimal_not_letter [of u 85] by auto
  have hd_ws: "ws @ post = [] \<or> \<not> is_decimal (hd (ws @ post))"
    using assms(4) nu not_decimal_space post(1) by (cases ws) auto
  have 1: "takeWhile is_decimal (ds @ ws @ post) = ds"
    using takeWhile_run [OF assms(3) hd_ws] by simp
  have 2: "dropWhile is_decimal (ds @ ws @ post) = ws @ post"
    using dropWhile_run [OF assms(3) hd_ws] by simp
  have 3: "dropWhile is_space (ws @ post) = post"
    using dropWhile_run [OF assms(4), of post] nu post(1) by simp
  obtain d dr where ds: "ds = d # dr" "d \<noteq> 43"
    using assms(2,3) decimal_not_plus by (cases ds) auto
  have t: "(case sign @ ds @ ws @ post of [] \<Rightarrow> [] | c # cs \<Rightarrow> if c = 43 then cs
             else sign @ ds @ ws @ post) = ds @ ws @ post"
    using assms(1) ds by auto
  show ?thesis
    unfolding units_count_at_def t Let_def 1 2 3 using assms(2,5) by simp
qed

lemma stock_decomposition:
  assumes "list_all (\<lambda>c. \<not> is_decimal c \<and> c \<noteq> 43) pre"
    "sign = [] \<or> sign = [43]" "ds \<noteq> []" "list_all is_decimal ds" "list_all is_space ws"
    "ci_prefix (py ''UNIDADES'') post"
  shows "stock_spec (pre @ sign @ ds @ ws @ post) = py_int ds"
proof -
  have "\<And>c t. c \<in> set pre \<Longrightarrow> units_count_at (c # t) = None"
  proof -
    fix c t assume "c \<in> set pre"
    then have "\<not> is_decimal c" "c \<noteq> 43" using assms(1) by (auto simp: list_all_iff)
    then show "units_count_at (c # t) = None" by (simp add: units_count_at_def)
  qed
  then have "leftmost units_count_at (pre @ sign @ ds @ ws @ post) =
      leftmost units_count_at (sign @ ds @ ws @ post)"
    by (rule leftmost_skip)
  also have "\<dots> = Some ds"
    using units_count_at_here [OF assms(2-6)] by (cases "sign @ ds @ ws @ post") auto
  finally show ?thesis by (simp add: stock_spec_def)
qed

lemma ci_prefix_length: "ci_prefix w s \<Longrightarrow> length w \<le> length s"
  by (induction w s rule: ci_prefix.induct) simp_all

lemmas stock_eval = stock_spec_def units_count_at_def py_def is_decimal_ascii is_space_def
  lit_i_def ignorecase_set_def py_int_def int_max_str_digits_def digits_value_def
  ascii_digit_value Let_def

subsection \<open>The name cleaner\<close>

lemma match_WS:
  "match_here [Rep is_space Plus] s =
     (if takeWhile is_space s = [] then None
      else Some ([takeWhile is_space s], dropWhile is_space s))"
  by (rule match_Plus_end)

lemma search_WS_None: "list_all (\<lambda>c. \<not> is_space c) s \<Longrightarrow> search [Rep is_space Plus] s = None"
  by (induction s) (simp_all add: match_WS del: match_here.simps)

lemma search_WS_word:
  assumes "list_all (\<lambda>c. \<not> is_space c) w" "is_space c"
  shows "search [Rep is_space Plus] (w @ c # t) =
           Some (w, [c # takeWhile is_space t], dropWhile is_space t)"
  using assms by (induction w) (simp_all add: match_WS del: match_here.simps)

lemma re_sub_WS_None:
  "list_all (\<lambda>c. \<not> is_space c) s \<Longrightarrow> re_sub [Rep is_space Plus] repl s = s"
  by (subst re_sub.simps) (simp add: search_WS_None)

lemma re_sub_WS_word:
  assumes "list_all (\<lambda>c. \<not> is_space c) w" "is_space c"
  shows "re_sub [Rep is_space Plus] repl (w @ c # t) =
           w @ repl @ re_sub [Rep is_space Plus] repl (dropWhile is_space t)"
proof -
  have "length (dropWhile is_space t) < length (w @ c # t)"
    using length_dropWhile_le [of is_space t] by simp
  then show ?thesis
    by (subst re_sub.simps) (simp add: search_WS_word [OF assms])
qed


lemma single_spaced_word:
  "w \<noteq> [] \<Longrightarrow> list_all (\<lambda>c. \<not> is_space c) w \<Longrightarrow> single_spaced w"
  by (induction w rule: single_spaced.induct) auto

lemma single_spaced_hd: "single_spaced s \<Longrightarrow> s \<noteq> [] \<Longrightarrow> \<not> is_space (hd s)"
  by (induction s rule: single_spaced.induct) auto

lemma single_spaced_last: "single_spaced s \<Longrightarrow> s \<noteq> [] \<Longrightarrow> \<not> is_space (last s)"
  by (induction s rule: single_spaced.induct) (auto split: if_splits)

lemma single_spaced_append:
  "w \<noteq> [] \<Longrightarrow> list_all (\<lambda>c. \<not> is_space c) w \<Longrightarrow> x \<noteq> [] \<Longrightarrow> single_spaced x \<Longrightarrow>
     single_spaced (w @ 32 # x)"
proof (induction w rule: single_spaced.induct)
  case 1
  then show ?case by simp
next
  case (2 c)
  then show ?case by (simp add: is_space_def)
next
  case (3 c d cs)
  then show ?case by simp
qed

lemma single_spaced_split:
  "single_spaced s \<Longrightarrow>
     s = [] \<or> list_all (\<lambda>c. \<not> is_space c) s \<or>
     (\<exists>w x. s = w @ 32 # x \<and> w \<noteq> [] \<and> list_all (\<lambda>c. \<not> is_space c) w \<and> x \<noteq> []
            \<and> single_spaced x)"
proof (induction s rule: single_spaced.induct)
  case 1
  then show ?case by simp
next
  case (2 c)
  then show ?case by simp
next
  case (3 c d cs)
  show ?case
  proof (cases "is_space d")
    case True
    with 3 have "c # d # cs = [c] @ 32 # cs" "cs \<noteq> []" "single_spaced cs"
      "list_all (\<lambda>c. \<not> is_space c) [c]" "[c] \<noteq> []"
      by auto
    then show ?thesis by blast
  next
    case False
    with 3 have c: "\<not> is_space c" and ss: "single_spaced (d # cs)" by auto
    from 3(2) [OF False ss]
    consider "list_all (\<lambda>c. \<not> is_space c) (d # cs)"
      | w x where "d # cs = w @ 32 # x" "w \<noteq> []" "list_all (\<lambda>c. \<not> is_space c) w" "x \<noteq> []"
          "single_spaced x"
      by auto
    then show ?thesis
    proof cases
      case 1
      then show ?thesis using c by simp
    next
      case 2
      then have "c # d # cs = (c # w) @ 32 # x" "list_all (\<lambda>c. \<not> is_space c) (c # w)"
        using c by auto
      then show ?thesis using 2 by (metis list.distinct(1))
    qed
  qed
qed


lemma trimmed_cases:
  assumes "t \<noteq> []" "\<not> is_space (hd t)" "\<not> is_space (last t)"
  obtains "list_all (\<lambda>c. \<not> is_space c) t"
  | w c t' where "t = w @ c # t'" "w \<noteq> []" "list_all (\<lambda>c. \<not> is_space c) w" "is_space c"
      "dropWhile is_space t' \<noteq> []" "\<not> is_space (hd (dropWhile is_space t'))"
      "\<not> is_space (last (dropWhile is_space t'))"
proof (cases "dropWhile (\<lambda>c. \<not> is_space c) t")
  case Nil
  then have "list_all (\<lambda>c. \<not> is_space c) t" by (simp add: list_all_iff)
  then show ?thesis using that(1) by blast
next
  case (Cons c t')
  let ?w = "takeWhile (\<lambda>c. \<not> is_space c) t"
  have t: "t = ?w @ c # t'" using Cons by (metis takeWhile_dropWhile_id)
  have c: "is_space c" using Cons hd_dropWhile [of "\<lambda>c. \<not> is_space c" t] by auto
  have w: "?w \<noteq> []" using assms(1,2) by (simp add: takeWhile_eq_Nil_iff)
  have wa: "list_all (\<lambda>c. \<not> is_space c) ?w"
    unfolding list_all_iff using set_takeWhileD by fastforce
  let ?r = "dropWhile is_space t'"
  have r: "?r \<noteq> []"
  proof
    assume "?r = []"
    then have "\<forall>x\<in>set (c # t'). is_space x" using c by simp
    moreover have "last t = last (c # t')" using t by (metis last_appendR list.distinct(1))
    ultimately show False using assms(3) by (metis last_in_set list.distinct(1))
  qed
  have "t' = takeWhile is_space t' @ ?r" by simp
  then have "last t' = last ?r" using r by (metis last_appendR)
  moreover have "last t = last t'" using t r
    by (metis dropWhile.simps(1) last.simps last_appendR list.distinct(1))
  ultimately have "\<not> is_space (last ?r)" using assms(3) by simp
  moreover have "\<not> is_space (hd ?r)" using r by (rule hd_dropWhile)
  ultimately show ?thesis using that(2) [OF t w wa c r] by blast
qed

lemma re_sub_WS_trimmed:
  "t = [] \<or> (\<not> is_space (hd t) \<and> \<not> is_space (last t)) \<Longrightarrow>
     single_spaced (re_sub [Rep is_space Plus] [32] t)
     \<and> (t \<noteq> [] \<longrightarrow> re_sub [Rep is_space Plus] [32] t \<noteq> [])
     \<and> filter (\<lambda>c. \<not> is_space c) (re_sub [Rep is_space Plus] [32] t)
           = filter (\<lambda>c. \<not> is_space c) t"
proof (induction "length t" arbitrary: t rule: less_induct)
  case less
  show ?case
  proof (cases "t = []")
    case True
    then show ?thesis by (simp add: re_sub_WS_None)
  next
    case False
    with less.prems have h: "\<not> is_space (hd t)" and l: "\<not> is_space (last t)" by auto
    from False h l show ?thesis
    proof (cases rule: trimmed_cases)
      case 1
      then show ?thesis using False by (simp add: re_sub_WS_None single_spaced_word)
    next
      case (2 w c t')
      let ?r = "dropWhile is_space t'"
      have "length ?r < length t"
        using 2(1) length_dropWhile_le [of is_space t'] by simp
      from less.hyps [OF this] 2(5,6,7)
      have ih: "single_spaced (re_sub [Rep is_space Plus] [32] ?r)"
        "re_sub [Rep is_space Plus] [32] ?r \<noteq> []"
        "filter (\<lambda>c. \<not> is_space c) (re_sub [Rep is_space Plus] [32] ?r)
           = filter (\<lambda>c. \<not> is_space c) ?r"
        by auto
      have e: "re_sub [Rep is_space Plus] [32] t = w @ 32 # re_sub [Rep is_space Plus] [32] ?r"
        using re_sub_WS_word [OF 2(3,4), of "[32]" t'] 2(1) by simp
      have f: "filter (\<lambda>c. \<not> is_space c) t' = filter (\<lambda>c. \<not> is_space c) ?r"
        by (induction t') simp_all
      have "filter (\<lambda>c. \<not> is_space c) (re_sub [Rep is_space Plus] [32] t)
              = filter (\<lambda>c. \<not> is_space c) t"
        unfolding e using ih(3) 2(1,4) f by (simp add: is_space_def)
      then show ?thesis
        unfolding e using single_spaced_append [OF 2(2,3) ih(2,1)] by simp
    qed
  qed
qed

lemma re_sub_WS_fixed:
  "single_spaced s \<Longrightarrow> re_sub [Rep is_space Plus] [32] s = s"
proof (induction "length s" arbitrary: s rule: less_induct)
  case less
  from single_spaced_split [OF less.prems]
  consider "s = []" | "list_all (\<lambda>c. \<not> is_space c) s"
    | w x where "s = w @ 32 # x" "w \<noteq> []" "list_all (\<lambda>c. \<not> is_space c) w" "x \<noteq> []"
        "single_spaced x"
    by blast
  then show ?case
  proof cases
    case 1
    then show ?thesis by (simp add: re_sub_WS_None)
  next
    case 2
    then show ?thesis by (simp add: re_sub_WS_None)
  next
    case 3
    have sp: "is_space 32" by (simp add: is_space_def)
    have "dropWhile is_space x = x"
      using single_spaced_hd [OF 3(5,4)] 3(4) by (simp add: dropWhile_eq_self_iff)
    moreover have "re_sub [Rep is_space Plus] [32] x = x"
      using less.hyps [of x] 3 by simp
    ultimately show ?thesis
      using re_sub_WS_word [OF 3(3) sp, of "[32]" x] 3(1) by simp
  qed
qed


lemma filter_dropWhile_not: "filter (\<lambda>c. \<not> p c) (dropWhile p xs) = filter (\<lambda>c. \<not> p c) xs"
  by (induction xs) simp_all

lemma filter_py_strip:
  "filter (\<lambda>c. \<not> is_space c) (py_strip s) = filter (\<lambda>c. \<not> is_space c) s"
proof -
  have "filter (\<lambda>c. \<not> is_space c) (py_strip s)
      = rev (filter (\<lambda>c. \<not> is_space c) (dropWhile is_space (rev (dropWhile is_space s))))"
    by (simp add: py_strip_def rev_filter)
  also have "\<dots> = rev (filter (\<lambda>c. \<not> is_space c) (rev (dropWhile is_space s)))"
    by (simp only: filter_dropWhile_not)
  also have "\<dots> = filter (\<lambda>c. \<not> is_space c) s"
    by (simp add: rev_filter [symmetric] filter_dropWhile_not)
  finally show ?thesis .
qed

lemma py_strip_trimmed:
  "py_strip s = [] \<or> (\<not> is_space (hd (py_strip s)) \<and> \<not> is_space (last (py_strip s)))"
  using py_strip_hd py_strip_last by blast

lemma cleanup_single_spaced: "single_spaced (cleanup_name name)"
  unfolding cleanup_name_def Let_def
  using re_sub_WS_trimmed [OF py_strip_trimmed] by blast

lemma cleanup_fixed: "single_spaced s \<Longrightarrow> cleanup_name (Some s) = s"
proof -
  assume ss: "single_spaced s"
  have "py_strip s = s"
    using py_strip_id [of s] single_spaced_hd [OF ss] single_spaced_last [OF ss] by blast
  then show ?thesis using re_sub_WS_fixed [OF ss] by (simp add: cleanup_name_def)
qed

lemma cleanup_keeps_text:
  "filter (\<lambda>c. \<not> is_space c) (cleanup_name (Some s)) = filter (\<lambda>c. \<not> is_space c) s"
  unfolding cleanup_name_def Let_def
  using re_sub_WS_trimmed [OF py_strip_trimmed, of s] by (simp add: filter_py_strip)

subsection \<open>The price scan of a line\<close>

lemma iva_hd: "py ''iva'' = 105 # py ''va''"
  by (simp add: py_def)

lemma space_not_iva: "is_space c \<Longrightarrow> \<not> ci_prefix (py ''iva'') (c # t)"
  using space_not_letter [of c 105] by (simp add: iva_hd)

lemma match_iva_tail:
  "match_here iva_tail v =
     (case v of [] \<Rightarrow> None
      | p # w \<Rightarrow>
          (let x = dropWhile is_space w in
           if p = 43 \<and> ci_prefix (py ''iva'') x
           then Some ([p] # takeWhile is_space w
                      # map (\<lambda>c. [c]) (take (length (py ''iva'')) x),
                      drop (length (py ''iva'')) x)
           else None))"
  unfolding iva_tail_def
  by (cases v)
     (simp_all add: match_Once match_space_word [OF space_not_iva] Let_def lit_def
       del: match_here.simps)

lemma iva_tail_fails: "c \<noteq> 43 \<Longrightarrow> match_here iva_tail (c # t) = None"
  by (simp add: match_iva_tail)

lemma match_space_iva_tail:
  "match_here (Rep is_space Star # iva_tail) t =
     map_option (\<lambda>(gs, r). (takeWhile is_space t # gs, r))
       (match_here iva_tail (dropWhile is_space t))"
  using match_Star [of is_space iva_tail] iva_tail_fails space_not_plus by blast

lemma match_amount_iva_tail:
  "match_here (Rep is_amount_char Plus # Rep is_space Star # iva_tail) u =
     (if takeWhile is_amount_char u = [] then None
      else map_option (\<lambda>(gs, r). (takeWhile is_amount_char u # gs, r))
             (match_here (Rep is_space Star # iva_tail) (dropWhile is_amount_char u)))"
proof -
  have "\<And>c t. is_amount_char c \<Longrightarrow> match_here (Rep is_space Star # iva_tail) (c # t) = None"
  proof -
    fix c t assume a: "is_amount_char c"
    then have "\<not> is_space c" "c \<noteq> 43" using amount_not_space amount_not_plus by auto
    then show "match_here (Rep is_space Star # iva_tail) (c # t) = None"
      by (simp add: match_space_iva_tail iva_tail_fails del: match_here.simps)
  qed
  from match_Plus [of is_amount_char "Rep is_space Star # iva_tail", OF this]
  show ?thesis .
qed

lemma match_space_amount_iva_tail:
  "match_here (Rep is_space Star # Rep is_amount_char Plus # Rep is_space Star # iva_tail) t =
     map_option (\<lambda>(gs, r). (takeWhile is_space t # gs, r))
       (match_here (Rep is_amount_char Plus # Rep is_space Star # iva_tail)
          (dropWhile is_space t))"
proof -
  have "\<And>c t. is_space c \<Longrightarrow>
     match_here (Rep is_amount_char Plus # Rep is_space Star # iva_tail) (c # t) = None"
    using space_not_amount by (simp add: match_amount_iva_tail del: match_here.simps)
  from match_Star [of is_space "Rep is_amount_char Plus # Rep is_space Star # iva_tail", OF this]
  show ?thesis .
qed

lemma PRICE_IVA_RE_unfold:
  "PRICE_IVA_RE = Rep (lit 36) Once # Rep is_space Star # Rep is_amount_char Plus
                    # Rep is_space Star # iva_tail"
  by (simp add: PRICE_IVA_RE_def iva_tail_def)

lemmas iva_chain = PRICE_IVA_RE_unfold match_Once match_space_amount_iva_tail
  match_amount_iva_tail match_space_iva_tail match_iva_tail iva_price_at_def Let_def
  lit_def option.map_comp comp_def case_prod_unfold

lemma match_PRICE_IVA_RE_group:
  "map_option (\<lambda>(gs, r). gs ! 2) (match_here PRICE_IVA_RE s) = iva_price_at s"
proof (cases s)
  case Nil
  then show ?thesis by (simp add: iva_chain del: match_here.simps)
next
  case s: (Cons c t)
  let ?u = "dropWhile is_space t"
  let ?v = "dropWhile is_space (dropWhile is_amount_char ?u)"
  show ?thesis
  proof (cases ?v)
    case Nil
    show ?thesis
      unfolding s by (simp add: Nil iva_chain del: match_here.simps)
  next
    case (Cons p w)
    show ?thesis
      unfolding s by (simp add: Cons iva_chain del: match_here.simps)
  qed
qed


lemma letter_not_dollar: "lit_i k c \<Longrightarrow> 65 \<le> k \<Longrightarrow> k \<le> 122 \<Longrightarrow> c \<noteq> 36"
  using lit_i_cases [of k c] by auto

lemma PRICE_IVA_match_shape:
  assumes "match_here PRICE_IVA_RE m = Some (gs, r)"
  shows "\<exists>body. m = 36 # body @ r \<and> 36 \<notin> set body"
proof -
  from match_here_sound [OF assms]
  have m: "m = concat gs @ r" and sp: "spans_ok PRICE_IVA_RE gs r" by auto
  from sp obtain g0 g1 g2 g3 g4 g5 g6 g7 g8 where
    gs: "gs = [g0, g1, g2, g3, g4, g5, g6, g7, g8]"
    and c: "list_all (lit 36) g0" "length g0 = 1" "list_all is_space g1"
      "list_all is_amount_char g2" "list_all is_space g3" "list_all (lit 43) g4"
      "list_all is_space g5" "list_all (lit_i 105) g6" "list_all (lit_i 118) g7"
      "list_all (lit_i 97) g8"
    by (auto simp: PRICE_IVA_RE_def literal_i_def py_def split: list.splits)
  from c(1,2) have g0: "g0 = [36]" by (cases g0) (auto simp: lit_def)
  let ?body = "g1 @ g2 @ g3 @ g4 @ g5 @ g6 @ g7 @ g8"
  have l: "\<And>x. lit_i 105 x \<Longrightarrow> x \<noteq> 36" "\<And>x. lit_i 118 x \<Longrightarrow> x \<noteq> 36"
    "\<And>x. lit_i 97 x \<Longrightarrow> x \<noteq> 36"
    using letter_not_dollar by auto
  have "36 \<notin> set ?body"
    using c(3-)
    by (auto simp: list_all_iff lit_def dest: space_not_dollar amount_not_dollar l)
  moreover have "m = 36 # ?body @ r" using m gs g0 by simp
  ultimately show ?thesis by blast
qed

lemma search_None_occurrences:
  assumes "\<And>s. match_here rx s = None \<Longrightarrow> f s = None"
  shows "search rx s = None \<Longrightarrow> occurrences f s = []"
  using assms by (induction s) (auto split: option.splits)

lemma search_Some_occurrences:
  assumes "\<And>s. match_here rx s = None \<Longrightarrow> f s = None"
  shows "search rx s = Some (skipped, gs, r) \<Longrightarrow>
           \<exists>m. s = skipped @ m \<and> match_here rx m = Some (gs, r)
               \<and> occurrences f s = occurrences f m"
proof (induction s arbitrary: skipped)
  case Nil
  then show ?case by auto
next
  case (Cons c cs)
  show ?case
  proof (cases "match_here rx (c # cs)")
    case None
    with Cons.prems obtain sk where sk: "search rx cs = Some (sk, gs, r)" "skipped = c # sk"
      by auto
    from Cons.IH [OF sk(1)] obtain m where "cs = sk @ m" "match_here rx m = Some (gs, r)"
      "occurrences f cs = occurrences f m" by blast
    then show ?thesis using sk(2) None assms [OF None] by auto
  next
    case (Some a)
    with Cons.prems have "skipped = []" "a = (gs, r)" by auto
    then show ?thesis using Some by auto
  qed
qed

lemma occurrences_skip:
  "(\<And>c t. c \<in> set pre \<Longrightarrow> f (c # t) = None) \<Longrightarrow>
     occurrences f (pre @ s) = occurrences f s"
  by (induction pre) simp_all

lemma iva_price_at_not_dollar: "c \<noteq> 36 \<Longrightarrow> iva_price_at (c # t) = None"
  by (simp add: iva_price_at_def Let_def split: list.splits)

lemma iva_price_None: "match_here PRICE_IVA_RE s = None \<Longrightarrow> iva_price_at s = None"
  using match_PRICE_IVA_RE_group [of s] by simp

lemma finditer_PRICE_IVA:
  "map (\<lambda>gs. gs ! 2) (finditer PRICE_IVA_RE s) = occurrences iva_price_at s"
proof (induction "length s" arbitrary: s rule: less_induct)
  case less
  show ?case
  proof (cases "search PRICE_IVA_RE s")
    case None
    then show ?thesis
      using search_None_occurrences [of PRICE_IVA_RE iva_price_at s] iva_price_None
      by (subst finditer.simps) simp
  next
    case (Some a)
    obtain skipped gs r where a: "a = (skipped, gs, r)" by (cases a) auto
    from search_Some_occurrences [of PRICE_IVA_RE iva_price_at s skipped gs r]
    obtain m where m: "s = skipped @ m" "match_here PRICE_IVA_RE m = Some (gs, r)"
      "occurrences iva_price_at s = occurrences iva_price_at m"
      using Some a iva_price_None by blast
    from PRICE_IVA_match_shape [OF m(2)] obtain body where
      body: "m = 36 # body @ r" "36 \<notin> set body" by blast
    have g: "iva_price_at m = Some (gs ! 2)"
      using match_PRICE_IVA_RE_group [of m] m(2) by simp
    have "occurrences iva_price_at (body @ r) = occurrences iva_price_at r"
      using body(2) iva_price_at_not_dollar by (intro occurrences_skip) metis
    then have o: "occurrences iva_price_at s = gs ! 2 # occurrences iva_price_at r"
      using m(3) g body(1) by simp
    have len: "length r < length s" using m(1) body(1) by simp
    have "finditer PRICE_IVA_RE s = gs # finditer PRICE_IVA_RE r"
      using Some a len by (subst finditer.simps) simp
    then show ?thesis using less [OF len] o by simp
  qed
qed

lemma extract_prices_eq_tiers: "extract_prices_from_line line = price_tiers line"
proof -
  have "map (\<lambda>gs. 36 # gs ! 2) (finditer PRICE_IVA_RE line) =
          map (\<lambda>amt. 36 # amt) (map (\<lambda>gs. gs ! 2) (finditer PRICE_IVA_RE line))"
    by simp
  then show ?thesis
    unfolding extract_prices_from_line_def price_tiers_def finditer_PRICE_IVA .
qed

subsection \<open>Lines that open a record\<close>

lemma contains_single: "contains [c] s \<longleftrightarrow> c \<in> set s"
  by (induction s) auto

lemma match_tail_line:
  assumes "v \<noteq> []" "10 \<notin> set v"
  shows "match_here [Rep not_newline Plus, Eol] v = Some ([v, []], [])"
proof -
  have tw: "takeWhile not_newline v = v"
    using assms(2) by (simp add: not_newline_def) (metis)
  let ?m = "length v"
  have "1 \<le> ?m" using assms(1) by (simp add: Suc_leI)
  then have "lens Plus ?m = ?m # rev [1..<?m]" by simp
  then show ?thesis
    unfolding match_here.simps tw by (simp del: lens.simps)
qed


lemma match_space_tail_line:
  assumes "u \<noteq> []" "is_space (hd u)" "dropWhile is_space u \<noteq> []"
    "10 \<notin> set (dropWhile is_space u)"
  shows "match_here [Rep is_space Plus, Rep not_newline Plus, Eol] u =
           Some ([takeWhile is_space u, dropWhile is_space u, []], [])"
proof -
  let ?m = "length (takeWhile is_space u)"
  have "takeWhile is_space u \<noteq> []" using assms(1,2) by (simp add: takeWhile_eq_Nil_iff)
  then have "1 \<le> ?m" by (simp add: Suc_leI)
  then have l: "lens Plus ?m = ?m # rev [1..<?m]" by simp
  have "match_here [Rep not_newline Plus, Eol] (drop ?m u) =
          Some ([dropWhile is_space u, []], [])"
    using match_tail_line [OF assms(3,4)] by (simp add: dropWhile_eq_drop [symmetric])
  then show ?thesis
    unfolding match_here.simps(3) [of is_space] l
    by (simp add: takeWhile_eq_take [symmetric] del: match_here.simps)
qed

lemma match_SKU_complete:
  assumes "sku_line line"
  shows "match_here SKU_INLINE_RE line =
           Some ([take 6 line, takeWhile is_space (drop 6 line),
                  dropWhile is_space (drop 6 line), []], [])"
proof -
  from assms have six: "length (takeWhile is_decimal line) = 6"
    and u: "drop 6 line \<noteq> []" "is_space (hd (drop 6 line))"
      "dropWhile is_space (drop 6 line) \<noteq> []" "10 \<notin> set (dropWhile is_space (drop 6 line))"
    by (auto simp: sku_line_def Let_def)
  show ?thesis
    unfolding SKU_INLINE_RE_def match_Times
    using six match_space_tail_line [OF u] by simp
qed

lemma match_SKU_sound:
  assumes "match_here SKU_INLINE_RE line = Some (gs, r)" "line = [] \<or> \<not> is_space (last line)"
  shows "sku_line line"
proof -
  from match_here_sound [OF assms(1)]
  have l: "line = concat gs @ r" and sp: "spans_ok SKU_INLINE_RE gs r" by auto
  from sp obtain g0 g1 g2 where
    gs: "gs = [g0, g1, g2, []]"
    and c: "list_all is_decimal g0" "length g0 = 6" "list_all is_space g1" "1 \<le> length g1"
      "list_all not_newline g2" "1 \<le> length g2" "r = [] \<or> r = [10]"
    by (auto simp: SKU_INLINE_RE_def split: list.splits)
  have ne: "line \<noteq> []" using l gs c(2) by auto
  have r: "r = []"
  proof (rule ccontr)
    assume "r \<noteq> []"
    then have "r = [10]" using c(7) by simp
    then have "last line = 10" using l by simp
    then show False using assms(2) ne by (simp add: is_space_def)
  qed
  have line: "line = g0 @ g1 @ g2" using l gs r by simp
  obtain s1 where g1: "g1 \<noteq> []" "is_space (hd g1)"
    using c(3,4) by (cases g1) auto
  have "g1 @ g2 = [] \<or> \<not> is_decimal (hd (g1 @ g2))"
    using g1 not_decimal_space by simp
  from takeWhile_run [OF c(1) this] have tw: "takeWhile is_decimal line = g0"
    using line by simp
  have u: "drop 6 line = g1 @ g2" using line c(2) by simp
  have d: "dropWhile is_space (g1 @ g2) = dropWhile is_space g2"
    using c(3) by (simp add: list_all_iff)
  have g2: "g2 \<noteq> []" using c(6) by auto
  then have "last g2 = last line" using line by simp
  then have "\<not> is_space (last g2)" using assms(2) ne by simp
  then have dn: "dropWhile is_space g2 \<noteq> []" using g2 by (metis dropWhile_eq_Nil_conv last_in_set)
  have "10 \<notin> set g2" using c(5) by (auto simp: list_all_iff not_newline_def)
  then have "10 \<notin> set (dropWhile is_space g2)" by (meson set_dropWhileD)
  then show ?thesis
    unfolding sku_line_def Let_def tw u d using c(2) g1 dn by simp
qed

lemma match_SKU_iff:
  assumes "line = [] \<or> \<not> is_space (last line)"
  shows "match_here SKU_INLINE_RE line \<noteq> None \<longleftrightarrow> sku_line line"
  using match_SKU_complete [of line] match_SKU_sound [OF _ assms] by (cases "match_here SKU_INLINE_RE line") auto


subsection \<open>One line of the scan\<close>

lemma py_strip_last_ok: "py_strip raw = [] \<or> \<not> is_space (last (py_strip raw))"
  using py_strip_last by blast

lemma process_line_noise:
  "is_noise (py_strip raw) \<Longrightarrow>
     process_line st raw = st\<lparr>idx := idx st + 1, name_buffer := [], in_continuation := False\<rparr>"
  by (simp add: process_line_def)

lemma process_line_no_open:
  assumes "\<not> opens_record (py_strip raw)"
  shows "rows (process_line st raw) = rows st"
proof -
  let ?line = "py_strip raw"
  have "(if contains [36] ?line then match_here SKU_INLINE_RE ?line else None) = None"
    if "\<not> is_noise ?line"
  proof (cases "contains [36] ?line")
    case True
    then have "\<not> sku_line ?line" using assms that by (simp add: opens_record_def contains_single)
    then have "match_here SKU_INLINE_RE ?line = None"
      using match_SKU_iff [OF py_strip_last_ok, of raw] by blast
    then show ?thesis by simp
  next
    case False
    then show ?thesis by simp
  qed
  then show ?thesis
    by (cases "is_noise ?line") (simp_all add: process_line_def Let_def)
qed

lemma process_line_open:
  assumes "opens_record (py_strip raw)"
  shows "\<exists>r. rows (process_line st raw) = rows st @ [r] \<and> row_key r = line_key (py_strip raw)"
proof -
  let ?line = "py_strip raw"
  from assms have n: "\<not> is_noise ?line" and s: "sku_line ?line" and d: "contains [36] ?line"
    by (simp_all add: opens_record_def contains_single)
  have m: "(if contains [36] ?line then match_here SKU_INLINE_RE ?line else None) =
      Some ([take 6 ?line, takeWhile is_space (drop 6 ?line),
             dropWhile is_space (drop 6 ?line), []], [])"
    using d match_SKU_complete [OF s] by simp
  show ?thesis
    unfolding process_line_def Let_def m
    using n by (simp add: row_key_def line_key_def tier_def extract_prices_eq_tiers)
qed

lemma process_line_local:
  "process_line st raw =
     \<lparr>idx = idx st + 1, rows = rows st @ rows (process_line (fresh st) raw),
      name_buffer = name_buffer (process_line (fresh st) raw),
      in_continuation = in_continuation (process_line (fresh st) raw)\<rparr>"
  by (cases st) (simp add: process_line_def fresh_def Let_def split: option.split prod.split)

subsection \<open>The whole scan\<close>

lemma extract_rows_fold:
  "extract_rows_from_text lines = rows (fold (\<lambda>l s. process_line s l) lines init_state)"
  using scan_loop_fold [of lines init_state]
  by (simp add: extract_rows_from_text_def init_state_def)

lemma fold_row_keys:
  "map row_key (rows (fold (\<lambda>l s. process_line s l) ls st)) =
     map row_key (rows st) @ map line_key (filter opens_record (map py_strip ls))"
proof (induction ls arbitrary: st)
  case Nil
  then show ?case by simp
next
  case (Cons l ls)
  show ?case
  proof (cases "opens_record (py_strip l)")
    case True
    from process_line_open [OF True, of st] obtain r where
      "rows (process_line st l) = rows st @ [r]" "row_key r = line_key (py_strip l)" by blast
    then show ?thesis using Cons [of "process_line st l"] True by simp
  next
    case False
    then show ?thesis
      using Cons [of "process_line st l"] process_line_no_open [OF False, of st] by simp
  qed
qed

lemma extract_row_keys:
  "map row_key (extract_rows_from_text lines) =
     map line_key (filter opens_record (map py_strip lines))"
  using fold_row_keys [of lines init_state]
  by (simp add: extract_rows_fold init_state_def)

lemma fresh_process_line: "fresh (process_line st raw) = fresh (process_line (fresh st) raw)"
  by (subst process_line_local) (simp add: fresh_def)

lemma fold_rows_local:
  "rows (fold (\<lambda>l s. process_line s l) ls st) =
     rows st @ rows (fold (\<lambda>l s. process_line s l) ls (fresh st))"
proof (induction ls arbitrary: st)
  case Nil
  then show ?case by (simp add: fresh_def)
next
  case (Cons l ls)
  have 1: "rows (process_line st l) = rows st @ rows (process_line (fresh st) l)"
    by (subst process_line_local) simp
  have "rows (fold (\<lambda>l s. process_line s l) (l # ls) st) =
          rows (process_line st l) @
          rows (fold (\<lambda>l s. process_line s l) ls (fresh (process_line st l)))"
    using Cons [of "process_line st l"] by simp
  also have "\<dots> = rows st @ rows (process_line (fresh st) l) @
          rows (fold (\<lambda>l s. process_line s l) ls (fresh (process_line (fresh st) l)))"
    using 1 fresh_process_line [of st l] by simp
  also have "\<dots> = rows st @ rows (fold (\<lambda>l s. process_line s l) (l # ls) (fresh st))"
    using Cons [of "process_line (fresh st) l"] by simp
  finally show ?case .
qed

lemma extract_rows_noise_split:
  assumes "is_noise (py_strip raw)"
  shows "extract_rows_from_text (pre @ raw # post) =
           extract_rows_from_text pre @ extract_rows_from_text post"
proof -
  let ?f = "\<lambda>l s. process_line s l"
  let ?st = "fold ?f pre init_state"
  have "fresh (process_line ?st raw) = init_state"
    by (simp add: process_line_noise [OF assms] fresh_def init_state_def)
  moreover have "rows (process_line ?st raw) = rows ?st"
    by (simp add: process_line_noise [OF assms])
  ultimately have "rows (fold ?f post (process_line ?st raw)) =
      rows ?st @ rows (fold ?f post init_state)"
    using fold_rows_local [of post "process_line ?st raw"] by simp
  then show ?thesis by (simp add: extract_rows_fold)
qed


lemma row_key_fields:
  "r_sku r = fst (row_key r)"
  "r_x1 r = fst (snd (row_key r))"
  "r_x3 r = fst (snd (snd (row_key r)))"
  "r_x6 r = fst (snd (snd (snd (row_key r))))"
  "r_stock r = fst (snd (snd (snd (snd (row_key r)))))"
  "r_eta r = snd (snd (snd (snd (snd (row_key r)))))"
  by (simp_all add: row_key_def)

lemma extract_rows_project:
  "map (\<lambda>r. g (row_key r)) (extract_rows_from_text lines) =
     map (\<lambda>l. g (line_key l)) (filter opens_record (map py_strip lines))"
proof -
  have "map (\<lambda>r. g (row_key r)) (extract_rows_from_text lines) =
          map g (map row_key (extract_rows_from_text lines))"
    by simp
  also have "\<dots> = map g (map line_key (filter opens_record (map py_strip lines)))"
    by (simp only: extract_row_keys)
  finally show ?thesis by simp
qed

lemma iva_price_at_dollar:
  "iva_price_at (36 # t) =
     (let u = dropWhile is_space t;
          amt = takeWhile is_amount_char u;
          v = dropWhile is_space (dropWhile is_amount_char u)
      in case v of [] \<Rightarrow> None
         | p # w \<Rightarrow>
             if amt \<noteq> [] \<and> p = 43 \<and> ci_prefix (py ''iva'') (dropWhile is_space w)
             then Some amt else None)"
  by (simp add: iva_price_at_def Let_def)

lemma iva_price_at_Nil: "iva_price_at [] = None"
  by (simp add: iva_price_at_def)

lemmas scan_eval = py_strip_def py_def is_space_def is_decimal_ascii opens_record_def
  is_noise_def sku_line_def line_key_def tier_def price_tiers_def iva_price_at_dollar
  iva_price_at_not_dollar iva_price_at_Nil lit_i_def ignorecase_set_def is_amount_char_def
  Let_def

subsection \<open>The record assembler\<close>

lemma extract_rows_none:
  assumes "\<And>l. l \<in> set lines \<Longrightarrow> \<not> opens_record (py_strip l)"
  shows "extract_rows_from_text lines = []"
proof -
  have "filter opens_record (map py_strip lines) = []"
    using assms by (auto simp: filter_empty_conv)
  then have "map row_key (extract_rows_from_text lines) = []"
    by (simp add: extract_row_keys)
  then show ?thesis by simp
qed

lemma fold_add_columns_present:
  "set cs \<subseteq> set (columns d) \<Longrightarrow>
     fold (\<lambda>c d. if c \<notin> set (columns d) then df_add_column c d else d) cs d = d"
  by (induction cs) simp_all

lemma df_select_all:
  "df_select (columns d) (d\<lparr>records := []\<rparr>) = Inr \<lparr>columns = columns d, records = []\<rparr>"
proof -
  have "find (\<lambda>c. c \<notin> set (columns d)) (columns d) = None"
    by (simp add: find_None_iff)
  then show ?thesis by (simp add: df_select_def)
qed

lemma ingest_no_rows:
  assumes "extract_rows_from_text (concat (map page_lines pages)) = []"
  shows "ingest_idc_pdf pages supplier_name p_name =
           Inr \<lparr>columns = STANDARD_COLUMNS, records = []\<rparr>"
proof -
  let ?d = "DataFrame_of_columns STANDARD_COLUMNS"
  have e: "df_empty (DataFrame_of_dicts [])"
    by (simp add: df_empty_def DataFrame_of_dicts_def)
  have f: "fold (\<lambda>c d. if c \<notin> set (columns d) then df_add_column c d else d)
             STANDARD_COLUMNS ?d = ?d"
    by (rule fold_add_columns_present) (simp add: DataFrame_of_columns_def)
  have "df_select STANDARD_COLUMNS ?d = Inr \<lparr>columns = STANDARD_COLUMNS, records = []\<rparr>"
    using df_select_all [of ?d] by (simp add: DataFrame_of_columns_def)
  then show ?thesis
    unfolding ingest_idc_pdf_def Let_def assms using e f by simp
qed

lemma page_lines_stripped: "l \<in> set (page_lines extracted) \<Longrightarrow> py_strip l = l"
  by (auto simp: page_lines_def Let_def py_strip_idem)

section \<open>The claims\<close>

text \<open>
  C1, amended. For every line sequence, every line that after trimming is not a noise
  line, starts with exactly six digits followed by whitespace and then by text without
  a line feed, and holds a \<open>$\<close> (\<open>opens_record\<close>) gives exactly one tuple, in the
  order of the lines, and no other line gives one. The price-tier strings of the tuple
  are, for each place of the line where \<open>$\<close>, an amount, \<open>+\<close> and \<open>iva\<close> in any
  letter case follow one another (whitespace allowed between them), the string made of
  \<open>$\<close> and the amount alone: tier 1 is the first, tier 2 the second, tier 3 the third,
  further ones are dropped and missing ones are empty. The function of the source that
  collects the prices equals this description (\<open>price_tiers\<close>).
\<close>

theorem price_tiers_of_record:
  "map (\<lambda>r. [r_x1 r, r_x3 r, r_x6 r]) (extract_rows_from_text lines) =
     map (\<lambda>l. [tier 0 (price_tiers l), tier 1 (price_tiers l), tier 2 (price_tiers l)])
       (filter opens_record (map py_strip lines))
   \<and> extract_prices_from_line line = price_tiers line"
proof -
  have "map (\<lambda>r. [r_x1 r, r_x3 r, r_x6 r]) (extract_rows_from_text lines) =
     map (\<lambda>l. [tier 0 (price_tiers l), tier 1 (price_tiers l), tier 2 (price_tiers l)])
       (filter opens_record (map py_strip lines))"
    using extract_rows_project
      [of "\<lambda>k. [fst (snd k), fst (snd (snd k)), fst (snd (snd (snd k)))]" lines]
    by (simp add: row_key_fields [symmetric]) (simp add: line_key_def)
  then show ?thesis using extract_prices_eq_tiers by blast
qed


theorem price_tiers_of_record_witness:
  "map (\<lambda>r. [r_x1 r, r_x3 r, r_x6 r])
     (extract_rows_from_text
       [py ''Laptop X'',
        py ''123456 Extra $1.200,00 + iva $ 1.150,00+IVA $1.100,00 + iva $9 + iva 50 UNIDADES'',
        py ''654321 Otro $5 + iva'']) =
     [[py ''$1.200,00'', py ''$1.150,00'', py ''$1.100,00''], [py ''$5'', [], []]]"
proof -
  let ?L = "[py ''Laptop X'',
        py ''123456 Extra $1.200,00 + iva $ 1.150,00+IVA $1.100,00 + iva $9 + iva 50 UNIDADES'',
        py ''654321 Otro $5 + iva'']"
  have "map (\<lambda>l. [tier 0 (price_tiers l), tier 1 (price_tiers l), tier 2 (price_tiers l)])
       (filter opens_record (map py_strip ?L)) =
     [[py ''$1.200,00'', py ''$1.150,00'', py ''$1.100,00''], [py ''$5'', [], []]]"
    by (simp add: scan_eval)
  then show ?thesis using price_tiers_of_record [of ?L "[]"] by simp
qed

theorem price_tiers_counterexample:
  "map r_x1 (extract_rows_from_text [py ''123456 Extra $ 100,00 + iva'']) = [py ''$100,00'']
   \<and> \<not> contains (py ''$100,00'') (py ''123456 Extra $ 100,00 + iva'')
   \<and> match_here PRICE_IVA_RE (py ''$100,00'') = None
   \<and> extract_rows_from_text [py ''123456 SKU IDC $1 + iva''] = []
   \<and> extract_rows_from_text [py ''123456 A'' @ [10] @ py ''B $1 + iva''] = []"
proof -
  have 1: "map r_x1 (extract_rows_from_text [py ''123456 Extra $ 100,00 + iva'']) = [py ''$100,00'']"
    using extract_rows_project [of "\<lambda>k. fst (snd k)" "[py ''123456 Extra $ 100,00 + iva'']"]
    by (simp add: row_key_fields [symmetric]) (simp add: scan_eval)
  have 2: "\<not> contains (py ''$100,00'') (py ''123456 Extra $ 100,00 + iva'')"
    by (simp add: py_def)
  have "iva_price_at (py ''$100,00'') = None" by (simp add: scan_eval)
  then have 3: "match_here PRICE_IVA_RE (py ''$100,00'') = None"
    using match_PRICE_IVA_RE_group [of "py ''$100,00''"] by simp
  have "map row_key (extract_rows_from_text [py ''123456 SKU IDC $1 + iva'']) = []"
    unfolding extract_row_keys by (simp add: scan_eval)
  then have 4: "extract_rows_from_text [py ''123456 SKU IDC $1 + iva''] = []" by simp
  have "map row_key (extract_rows_from_text [py ''123456 A'' @ [10] @ py ''B $1 + iva'']) = []"
    unfolding extract_row_keys by (simp add: scan_eval)
  then have 5: "extract_rows_from_text [py ''123456 A'' @ [10] @ py ''B $1 + iva''] = []" by simp
  show ?thesis using 1 2 3 4 5 by blast
qed

text \<open>
  C2. A line adds a tuple only when, trimmed, it begins with a run of exactly six
  digits followed by whitespace and further text (\<open>sku_line\<close>); a line whose leading
  run of digits is not six long (five, seven or more) never adds a tuple, whatever
  follows. Over a whole scan the SKUs are the first six characters of the lines that
  open a record, and no tuple comes out when no line has a leading run of six digits.
  A digit is what \<open>\d\<close> matches, a decimal digit of any script.
\<close>

theorem record_needs_six_digits:
  "(rows (process_line st raw) \<noteq> rows st \<longrightarrow> sku_line (py_strip raw))
   \<and> (length (takeWhile is_decimal (py_strip raw)) \<noteq> 6 \<longrightarrow>
        rows (process_line st raw) = rows st)
   \<and> map r_sku (extract_rows_from_text lines) =
        map (take 6) (filter opens_record (map py_strip lines))
   \<and> ((\<forall>l \<in> set lines. length (takeWhile is_decimal (py_strip l)) \<noteq> 6) \<longrightarrow>
        extract_rows_from_text lines = [])"
proof -
  have a: "rows (process_line st raw) \<noteq> rows st \<longrightarrow> sku_line (py_strip raw)"
    using process_line_no_open [of raw st] by (auto simp: opens_record_def)
  have b: "length (takeWhile is_decimal (py_strip raw)) \<noteq> 6 \<longrightarrow>
        rows (process_line st raw) = rows st"
    using process_line_no_open [of raw st] by (auto simp: opens_record_def sku_line_def)
  have c: "map r_sku (extract_rows_from_text lines) =
        map (take 6) (filter opens_record (map py_strip lines))"
    using extract_rows_project [of fst lines]
    by (simp add: row_key_fields [symmetric]) (simp add: line_key_def)
  have d: "extract_rows_from_text lines = []"
    if "\<forall>l \<in> set lines. length (takeWhile is_decimal (py_strip l)) \<noteq> 6"
  proof -
    have "filter opens_record (map py_strip lines) = []"
      using that by (auto simp: filter_empty_conv opens_record_def sku_line_def)
    then have "map r_sku (extract_rows_from_text lines) = []" using c by simp
    then show ?thesis by simp
  qed
  show ?thesis using a b c d by blast
qed

theorem record_needs_six_digits_witness:
  "length (takeWhile is_decimal (py_strip (py ''12345 Extra $100,00 + iva 10 UNIDADES''))) = 5
   \<and> rows (process_line init_state (py ''12345 Extra $100,00 + iva 10 UNIDADES'')) = rows init_state
   \<and> length (takeWhile is_decimal (py_strip (py ''1234567 Extra $100,00 + iva 10 UNIDADES''))) = 7
   \<and> rows (process_line init_state (py ''1234567 Extra $100,00 + iva 10 UNIDADES'')) = rows init_state
   \<and> rows (process_line init_state (py ''098765 B $1 + iva'')) \<noteq> rows init_state
   \<and> sku_line (py_strip (py ''098765 B $1 + iva''))
   \<and> map r_sku (extract_rows_from_text
        [py ''12345 A $1 + iva'', py ''098765 B $1 + iva'', py ''1234567 C $1 + iva'']) = [py ''098765'']
   \<and> extract_rows_from_text [py ''12345 A $1 + iva'', py ''1234567 C $1 + iva''] = []"
proof -
  have 5: "length (takeWhile is_decimal (py_strip (py ''12345 Extra $100,00 + iva 10 UNIDADES''))) = 5"
    by (simp add: scan_eval)
  have 7: "length (takeWhile is_decimal (py_strip (py ''1234567 Extra $100,00 + iva 10 UNIDADES''))) = 7"
    by (simp add: scan_eval)
  have r5: "rows (process_line init_state (py ''12345 Extra $100,00 + iva 10 UNIDADES'')) = rows init_state"
    using record_needs_six_digits [of init_state "py ''12345 Extra $100,00 + iva 10 UNIDADES''" "[]"] 5
    by simp
  have r7: "rows (process_line init_state (py ''1234567 Extra $100,00 + iva 10 UNIDADES'')) = rows init_state"
    using record_needs_six_digits [of init_state "py ''1234567 Extra $100,00 + iva 10 UNIDADES''" "[]"] 7
    by simp
  have "opens_record (py_strip (py ''098765 B $1 + iva''))" by (simp add: scan_eval)
  then have r6: "rows (process_line init_state (py ''098765 B $1 + iva'')) \<noteq> rows init_state"
    using process_line_open [of "py ''098765 B $1 + iva''" init_state] by auto
  then have s6: "sku_line (py_strip (py ''098765 B $1 + iva''))"
    using record_needs_six_digits [of init_state "py ''098765 B $1 + iva''" "[]"] by blast
  have "map (take 6) (filter opens_record (map py_strip
          [py ''12345 A $1 + iva'', py ''098765 B $1 + iva'', py ''1234567 C $1 + iva''])) = [py ''098765'']"
    by (simp add: scan_eval)
  then have s: "map r_sku (extract_rows_from_text
        [py ''12345 A $1 + iva'', py ''098765 B $1 + iva'', py ''1234567 C $1 + iva'']) = [py ''098765'']"
    using record_needs_six_digits [of init_state "[]"
        "[py ''12345 A $1 + iva'', py ''098765 B $1 + iva'', py ''1234567 C $1 + iva'']"]
    by simp
  have "\<forall>l \<in> set [py ''12345 A $1 + iva'', py ''1234567 C $1 + iva''].
          length (takeWhile is_decimal (py_strip l)) \<noteq> 6"
    by (simp add: scan_eval)
  then have e: "extract_rows_from_text [py ''12345 A $1 + iva'', py ''1234567 C $1 + iva''] = []"
    using record_needs_six_digits [of init_state "[]"
        "[py ''12345 A $1 + iva'', py ''1234567 C $1 + iva'']"]
    by blast
  show ?thesis using 5 7 r5 r7 r6 s6 s e by blast
qed

text \<open>
  C3. When a line is a noise line (empty after trimming, holding \<open>SKU IDC\<close>,
  \<open>NOMBRE DEL PRODUCTO\<close> or \<open>FORMAS DE PAGO\<close>, or beginning with \<open>Gratis\<close>, the
  briefcase glyph or the bullet) the line is discarded: the emitted tuples stay, the
  name buffer becomes empty and continuation mode becomes false. So the tuples of
  a sequence with a noise line in it are the tuples of the lines before it followed by
  the tuples of the lines after it, each scanned alone: nothing of the noise line, and
  nothing buffered before it, reaches a name emitted after it.
\<close>

theorem noise_resets_scan:
  "is_noise (py_strip raw) \<longrightarrow>
     process_line st raw = st\<lparr>idx := idx st + 1, name_buffer := [], in_continuation := False\<rparr>
     \<and> extract_rows_from_text (pre @ raw # post) =
         extract_rows_from_text pre @ extract_rows_from_text post"
  using process_line_noise [of raw st] extract_rows_noise_split [of raw pre post] by blast

theorem noise_resets_scan_witness:
  "is_noise (py_strip (py ''  FORMAS DE PAGO: Efectivo''))
   \<and> process_line init_state (py ''  FORMAS DE PAGO: Efectivo'') =
       init_state\<lparr>idx := idx init_state + 1, name_buffer := [], in_continuation := False\<rparr>
   \<and> extract_rows_from_text
        ([py ''Laptop A''] @ py ''  FORMAS DE PAGO: Efectivo'' # [py ''123456 B $1 + iva'']) =
       extract_rows_from_text [py ''Laptop A''] @ extract_rows_from_text [py ''123456 B $1 + iva'']"
proof -
  have n: "is_noise (py_strip (py ''  FORMAS DE PAGO: Efectivo''))"
    by (simp add: scan_eval)
  show ?thesis
    using n noise_resets_scan [of "py ''  FORMAS DE PAGO: Efectivo''" init_state "[py ''Laptop A'']"
        "[py ''123456 B $1 + iva'']"]
    by blast
qed

text \<open>
  C4. For every line that opens a record, the tuple's stock text and ETA text are both
  the whole trimmed line: the pairs of the two fields are, in order, the pairs
  \<open>(line, line)\<close> of the lines that open a record.
\<close>

theorem stock_and_eta_full_line:
  "map (\<lambda>r. (r_stock r, r_eta r)) (extract_rows_from_text lines) =
     map (\<lambda>l. (l, l)) (filter opens_record (map py_strip lines))
   \<and> (\<forall>r \<in> set (extract_rows_from_text lines).
         r_eta r = r_stock r \<and> (\<exists>raw \<in> set lines. r_stock r = py_strip raw))"
proof -
  have a: "map (\<lambda>r. (r_stock r, r_eta r)) (extract_rows_from_text lines) =
     map (\<lambda>l. (l, l)) (filter opens_record (map py_strip lines))"
    using extract_rows_project [of "\<lambda>k. (fst (snd (snd (snd (snd k)))), snd (snd (snd (snd (snd k)))))" lines]
    by (simp add: row_key_fields [symmetric]) (simp add: line_key_def)
  have "r_eta r = r_stock r \<and> (\<exists>raw \<in> set lines. r_stock r = py_strip raw)"
    if "r \<in> set (extract_rows_from_text lines)" for r
  proof -
    have "(r_stock r, r_eta r) \<in> set (map (\<lambda>r. (r_stock r, r_eta r)) (extract_rows_from_text lines))"
      using that by (simp add: image_iff) blast
    then have "(r_stock r, r_eta r) \<in> set (map (\<lambda>l. (l, l)) (filter opens_record (map py_strip lines)))"
      by (simp only: a)
    then show ?thesis by auto
  qed
  then show ?thesis using a by blast
qed

theorem stock_and_eta_full_line_witness:
  "map (\<lambda>r. (r_stock r, r_eta r))
     (extract_rows_from_text [py ''Laptop A'', py '' 123456 B $1 + iva 5 UNIDADES  '']) =
     [(py ''123456 B $1 + iva 5 UNIDADES'', py ''123456 B $1 + iva 5 UNIDADES'')]
   \<and> list_all (\<lambda>r. r_eta r = r_stock r)
        (extract_rows_from_text [py ''Laptop A'', py '' 123456 B $1 + iva 5 UNIDADES  ''])"
proof -
  note t = stock_and_eta_full_line [of "[py ''Laptop A'', py '' 123456 B $1 + iva 5 UNIDADES  '']"]
  have "map (\<lambda>l. (l, l)) (filter opens_record
          (map py_strip [py ''Laptop A'', py '' 123456 B $1 + iva 5 UNIDADES  ''])) =
        [(py ''123456 B $1 + iva 5 UNIDADES'', py ''123456 B $1 + iva 5 UNIDADES'')]"
    by (simp add: scan_eval)
  then have 1: "map (\<lambda>r. (r_stock r, r_eta r))
     (extract_rows_from_text [py ''Laptop A'', py '' 123456 B $1 + iva 5 UNIDADES  '']) =
     [(py ''123456 B $1 + iva 5 UNIDADES'', py ''123456 B $1 + iva 5 UNIDADES'')]"
    using t by simp
  have 2: "list_all (\<lambda>r. r_eta r = r_stock r)
        (extract_rows_from_text [py ''Laptop A'', py '' 123456 B $1 + iva 5 UNIDADES  ''])"
    unfolding list_all_iff using t by blast
  show ?thesis using 1 2 by blast
qed

text \<open>
  C5. For every input fragment the Price Normalizer applies the separator rule to the
  first currency-like numeric substring, the first maximal run of digits, dots and
  commas: with both a dot and a comma the dots are removed and the comma becomes the
  decimal point; with a comma only, the comma becomes the decimal point; otherwise the
  token is parsed as it is (\<open>price_spec\<close>). \<open>$1.398,88 + iva\<close> gives 1398.88,
  \<open>$138.22\<close> gives 138.22, \<open>1398,88\<close> gives 1398.88, and the empty string and a text
  without any digit, dot or comma give no value. The float is the exact decimal value
  of the token (see \<open>py_float\<close>).
\<close>

theorem price_normalizer_separator_rule:
  "parse_price_to_float s = price_spec s
   \<and> parse_price_to_float (py ''$1.398,88 + iva'') = Some 1398.88
   \<and> parse_price_to_float (py ''$138.22'') = Some 138.22
   \<and> parse_price_to_float (py ''1398,88'') = Some 1398.88
   \<and> parse_price_to_float [] = None
   \<and> parse_price_to_float (py ''sin precio'') = None
   \<and> (\<not> list_ex is_amount_char s \<longrightarrow> parse_price_to_float s = None)"
proof -
  have 1: "parse_price_to_float (py ''$1.398,88 + iva'') = Some 1398.88"
    unfolding parse_price_eq_spec by (simp add: price_eval)
  have 2: "parse_price_to_float (py ''$138.22'') = Some 138.22"
    unfolding parse_price_eq_spec by (simp add: price_eval)
  have 3: "parse_price_to_float (py ''1398,88'') = Some 1398.88"
    unfolding parse_price_eq_spec by (simp add: price_eval)
  have 4: "parse_price_to_float [] = None"
    by (simp add: parse_price_to_float_def)
  have 5: "parse_price_to_float (py ''sin precio'') = None"
    unfolding parse_price_eq_spec by (simp add: price_eval)
  show ?thesis
    using 1 2 3 4 5 parse_price_eq_spec [of s] price_no_amount_char [of s] by simp
qed

theorem price_normalizer_separator_rule_witness:
  "parse_price_to_float (py ''Precio: $ 2.500,50 + iva'') = Some 2500.5
   \<and> \<not> list_ex is_amount_char (py ''consultar'')
   \<and> parse_price_to_float (py ''consultar'') = None"
proof -
  have n: "\<not> list_ex is_amount_char (py ''consultar'')"
    by (simp add: py_def is_amount_char_def)
  have "parse_price_to_float (py ''consultar'') = None"
    using price_normalizer_separator_rule [of "py ''consultar''"] n by blast
  moreover have "parse_price_to_float (py ''Precio: $ 2.500,50 + iva'') = Some 2500.5"
    using price_normalizer_separator_rule [of "py ''Precio: $ 2.500,50 + iva''"]
    by (simp add: price_eval)
  ultimately show ?thesis using n by simp
qed

text \<open>
  C6, amended: the marker of the source is \<open>UNIDADES\<close>, not \<open>UNITS\<close>. For every text
  fragment the Stock Normalizer returns the integer that stands immediately before
  the marker \<open>UNIDADES\<close> in any letter case, at the leftmost position of the text where
  an optional \<open>+\<close>, digits, optional whitespace and the marker follow one another
  (\<open>stock_spec\<close>); the \<open>+\<close> is dropped. \<open>10 UNIDADES\<close> gives 10, \<open>+50 UNIDADES\<close> gives 50,
  \<open>25 unidades\<close> gives 25, text around the count is ignored, and a fragment without
  the marker gives no value. After a prefix that holds no digit and no \<open>+\<close>, the
  value is that of the digits before the marker, as long as there are at most 4300 of
  them (beyond that \<open>int\<close> raises ValueError and the result is no value).
\<close>

theorem stock_normalizer_unidades:
  "parse_stock s = stock_spec s
   \<and> parse_stock (py ''10 UNIDADES'') = Some 10
   \<and> parse_stock (py ''+50 UNIDADES'') = Some 50
   \<and> parse_stock (py ''25 unidades'') = Some 25
   \<and> parse_stock (py ''Stock: 100 UNIDADES disponibles'') = Some 100
   \<and> parse_stock (py ''sin stock'') = None
   \<and> ((\<forall>k. \<not> ci_prefix (py ''UNIDADES'') (drop k s)) \<longrightarrow> parse_stock s = None)
   \<and> (list_all (\<lambda>c. \<not> is_decimal c \<and> c \<noteq> 43) pre \<and> (sign = [] \<or> sign = [43])
        \<and> ds \<noteq> [] \<and> list_all is_decimal ds \<and> length ds \<le> int_max_str_digits
        \<and> list_all is_space ws \<and> ci_prefix (py ''UNIDADES'') post
      \<longrightarrow> parse_stock (pre @ sign @ ds @ ws @ post) = Some (int (digits_value ds)))"
proof -
  have 1: "parse_stock (py ''10 UNIDADES'') = Some 10"
    unfolding parse_stock_eq_spec by (simp add: stock_eval)
  have 2: "parse_stock (py ''+50 UNIDADES'') = Some 50"
    unfolding parse_stock_eq_spec by (simp add: stock_eval)
  have 3: "parse_stock (py ''25 unidades'') = Some 25"
    unfolding parse_stock_eq_spec by (simp add: stock_eval)
  have 4: "parse_stock (py ''Stock: 100 UNIDADES disponibles'') = Some 100"
    unfolding parse_stock_eq_spec by (simp add: stock_eval)
  have 5: "parse_stock (py ''sin stock'') = None"
    unfolding parse_stock_eq_spec by (simp add: stock_eval)
  have 6: "(\<forall>k. \<not> ci_prefix (py ''UNIDADES'') (drop k s)) \<longrightarrow> parse_stock s = None"
    unfolding parse_stock_eq_spec using stock_no_marker [of s] by blast
  have 7: "list_all (\<lambda>c. \<not> is_decimal c \<and> c \<noteq> 43) pre \<and> (sign = [] \<or> sign = [43])
        \<and> ds \<noteq> [] \<and> list_all is_decimal ds \<and> length ds \<le> int_max_str_digits
        \<and> list_all is_space ws \<and> ci_prefix (py ''UNIDADES'') post
      \<longrightarrow> parse_stock (pre @ sign @ ds @ ws @ post) = Some (int (digits_value ds))"
    unfolding parse_stock_eq_spec using stock_decomposition [of pre sign ds ws post]
    by (simp add: py_int_def)
  show ?thesis using 1 2 3 4 5 6 7 parse_stock_eq_spec [of s] by blast
qed

theorem stock_units_counterexample:
  "parse_stock (py ''10 UNITS'') = None \<and> parse_stock (py ''+50 UNITS'') = None
   \<and> parse_stock (py ''25 units'') = None"
  unfolding parse_stock_eq_spec by (simp add: stock_eval)


theorem stock_normalizer_unidades_witness:
  "(\<forall>k. \<not> ci_prefix (py ''UNIDADES'') (drop k (py ''agotado'')))
   \<and> parse_stock (py ''agotado'') = None
   \<and> parse_stock (py ''Hay +12 Unidades.'') = Some 12"
proof -
  have n: "\<forall>k. \<not> ci_prefix (py ''UNIDADES'') (drop k (py ''agotado''))"
  proof
    fix k
    show "\<not> ci_prefix (py ''UNIDADES'') (drop k (py ''agotado''))"
      using ci_prefix_length [of "py ''UNIDADES''" "drop k (py ''agotado'')"]
      by (auto simp: py_def)
  qed
  have h: "list_all (\<lambda>c. \<not> is_decimal c \<and> c \<noteq> 43) (py ''Hay '') \<and> ([43] = [] \<or> [43] = [43::nat])
        \<and> py ''12'' \<noteq> [] \<and> list_all is_decimal (py ''12'')
        \<and> length (py ''12'') \<le> int_max_str_digits
        \<and> list_all is_space [32] \<and> ci_prefix (py ''UNIDADES'') (py ''Unidades.'')"
    by (simp add: stock_eval)
  have v: "int (digits_value (py ''12'')) = 12" by (simp add: stock_eval)
  note t = stock_normalizer_unidades [of "py ''agotado''" "py ''Hay ''" "[43]" "py ''12''" "[32]"
      "py ''Unidades.''"]
  have 1: "parse_stock (py ''agotado'') = None" using t n by blast
  have "parse_stock (py ''Hay '' @ [43] @ py ''12'' @ [32] @ py ''Unidades.'') = Some 12"
    using t h v by simp
  then have 2: "parse_stock (py ''Hay +12 Unidades.'') = Some 12" by (simp add: py_def)
  show ?thesis using n 1 2 by blast
qed

text \<open>
  C7. The Name Cleaner is idempotent: cleaning a cleaned name gives it back, for
  every string and for None. A cleaned name is single-spaced: it neither starts nor
  ends with whitespace, and every whitespace character in it (line breaks included in
  the input) is one blank between two characters that are not whitespace. None gives
  the empty string. The characters that are not whitespace are kept, in order.
\<close>

theorem name_cleaner_idempotent:
  "cleanup_name (Some (cleanup_name name)) = cleanup_name name
   \<and> single_spaced (cleanup_name name)
   \<and> cleanup_name None = []
   \<and> filter (\<lambda>c. \<not> is_space c) (cleanup_name (Some s)) = filter (\<lambda>c. \<not> is_space c) s"
proof -
  have "cleanup_name None = []"
    by (simp add: cleanup_name_def re_sub_WS_None)
  then show ?thesis
    using cleanup_fixed [OF cleanup_single_spaced [of name]] cleanup_single_spaced [of name]
      cleanup_keeps_text [of s] by simp
qed

theorem name_cleaner_idempotent_witness:
  "cleanup_name (Some (py ''  Notebook    HP '' @ [10, 9] @ py ''ProBook '')) = py ''Notebook HP ProBook''
   \<and> cleanup_name (Some (py ''Notebook HP ProBook'')) = py ''Notebook HP ProBook''
   \<and> single_spaced (py ''Notebook HP ProBook'')"
proof -
  let ?x = "py ''  Notebook    HP '' @ [10, 9] @ py ''ProBook ''"
  have e: "cleanup_name (Some ?x) = py ''Notebook HP ProBook''"
    by (simp add: cleanup_name_def py_strip_def py_def is_space_def re_sub.simps match_WS
        del: match_here.simps)
  note t = name_cleaner_idempotent [of "Some ?x" ?x]
  show ?thesis using t unfolding e by simp
qed

text \<open>
  C8. When the document gives no tuple (no pages, or only lines that open no record)
  the pipeline returns a table, not an error, with no rows and with exactly the
  columns \<open>STANDARD_COLUMNS\<close>, in that order: the fifteen canonical names.
\<close>

theorem empty_result_has_canonical_columns:
  "(extract_rows_from_text (concat (map page_lines pages)) = [] \<longrightarrow>
      ingest_idc_pdf pages supplier_name p_name =
        Inr \<lparr>columns = STANDARD_COLUMNS, records = []\<rparr>)
   \<and> ((\<forall>l \<in> set (concat (map page_lines pages)). \<not> opens_record l) \<longrightarrow>
      ingest_idc_pdf pages supplier_name p_name =
        Inr \<lparr>columns = STANDARD_COLUMNS, records = []\<rparr>)
   \<and> ingest_idc_pdf [] supplier_name p_name = Inr \<lparr>columns = STANDARD_COLUMNS, records = []\<rparr>
   \<and> length STANDARD_COLUMNS = 15
   \<and> STANDARD_COLUMNS =
        map py [''supplier'', ''supplier_sku'', ''title'', ''brand'', ''model'', ''ean_upc'',
          ''category'', ''condition'', ''cost_x1_usd'', ''cost_x3_usd'', ''cost_x6_usd'',
          ''tax_included'', ''stock'', ''eta_text'', ''source_file'']"
proof -
  have a: "extract_rows_from_text (concat (map page_lines pages)) = [] \<longrightarrow>
      ingest_idc_pdf pages supplier_name p_name =
        Inr \<lparr>columns = STANDARD_COLUMNS, records = []\<rparr>"
    using ingest_no_rows [of pages supplier_name p_name] by blast
  have b: "ingest_idc_pdf pages supplier_name p_name =
        Inr \<lparr>columns = STANDARD_COLUMNS, records = []\<rparr>"
    if h: "\<forall>l \<in> set (concat (map page_lines pages)). \<not> opens_record l"
  proof -
    have "\<And>l. l \<in> set (concat (map page_lines pages)) \<Longrightarrow> \<not> opens_record (py_strip l)"
      using h page_lines_stripped by auto
    then have "extract_rows_from_text (concat (map page_lines pages)) = []"
      by (rule extract_rows_none)
    then show ?thesis using a by blast
  qed
  have c: "ingest_idc_pdf [] supplier_name p_name = Inr \<lparr>columns = STANDARD_COLUMNS, records = []\<rparr>"
    using ingest_no_rows [of "[]" supplier_name p_name] extract_rows_none [of "[]"] by simp
  have d: "length STANDARD_COLUMNS = 15" by (simp add: STANDARD_COLUMNS_def)
  have e: "STANDARD_COLUMNS =
        map py [''supplier'', ''supplier_sku'', ''title'', ''brand'', ''model'', ''ean_upc'',
          ''category'', ''condition'', ''cost_x1_usd'', ''cost_x3_usd'', ''cost_x6_usd'',
          ''tax_included'', ''stock'', ''eta_text'', ''source_file'']"
    by (simp add: STANDARD_COLUMNS_def)
  show ?thesis using a b c d e by blast
qed

theorem empty_result_has_canonical_columns_witness:
  "concat (map page_lines [Some (py ''SKU IDC'' @ [10] @ py ''Sin datos'' @ [13, 10] @ py '' $5 + iva''), None])
     = [py ''SKU IDC'', py ''Sin datos'', py ''$5 + iva'']
   \<and> extract_rows_from_text [py ''SKU IDC'', py ''Sin datos'', py ''$5 + iva''] = []
   \<and> ingest_idc_pdf [Some (py ''SKU IDC'' @ [10] @ py ''Sin datos'' @ [13, 10] @ py '' $5 + iva''), None]
        (py ''IDC'') (py ''empty.pdf'') = Inr \<lparr>columns = STANDARD_COLUMNS, records = []\<rparr>"
proof -
  let ?P = "[Some (py ''SKU IDC'' @ [10] @ py ''Sin datos'' @ [13, 10] @ py '' $5 + iva''), None]"
  note t = empty_result_has_canonical_columns [of ?P "py ''IDC''" "py ''empty.pdf''"]
  have l: "concat (map page_lines ?P) = [py ''SKU IDC'', py ''Sin datos'', py ''$5 + iva'']"
    by (simp add: page_lines_def splitlines_def is_linebreak_def py_def py_strip_def
        is_space_def)
  have n: "\<forall>l \<in> set (concat (map page_lines ?P)). \<not> opens_record l"
    unfolding l by (simp add: scan_eval)
  then have 1: "ingest_idc_pdf ?P (py ''IDC'') (py ''empty.pdf'') =
      Inr \<lparr>columns = STANDARD_COLUMNS, records = []\<rparr>"
    using t by blast
  have "\<forall>x \<in> set [py ''SKU IDC'', py ''Sin datos'', py ''$5 + iva''].
          \<not> opens_record (py_strip x)"
    by (simp add: scan_eval)
  then have e: "extract_rows_from_text [py ''SKU IDC'', py ''Sin datos'', py ''$5 + iva''] = []"
    using extract_rows_none [of "[py ''SKU IDC'', py ''Sin datos'', py ''$5 + iva'']"] by blast
  then have "ingest_idc_pdf ?P (py ''IDC'') (py ''empty.pdf'') =
      Inr \<lparr>columns = STANDARD_COLUMNS, records = []\<rparr>"
    using t l by simp
  then show ?thesis using l e by blast
qed

text \<open>
  C9. Looking up a name that is not a key of the registry fails with a ValueError
  whose message is \<open>Proveedor no registrado:\<close> followed by the requested name and by
  \<open>Disponibles:\<close> with the list of the registered keys in registration order; looking
  up a key returns the function stored under it, in particular the function just
  registered under that name; and the lookup fails exactly when the name is not a key.
\<close>

theorem get_provider_contract:
  "(name \<notin> set (map fst REGISTRY) \<longrightarrow>
      get_provider repr_str REGISTRY name =
        Inl (ValueError (py ''Proveedor no registrado: '' @ name @ py ''. Disponibles: '' @
                         repr_list repr_str (map fst REGISTRY))))
   \<and> (name \<in> set (map fst REGISTRY) \<longrightarrow>
        (\<exists>func. (name, func) \<in> set REGISTRY \<and> get_provider repr_str REGISTRY name = Inr func))
   \<and> get_provider repr_str (fst (register name func REGISTRY)) name = Inr func
   \<and> ((\<exists>e. get_provider repr_str REGISTRY name = Inl e) \<longleftrightarrow> name \<notin> set (map fst REGISTRY))"
proof -
  have "(\<exists>e. get_provider repr_str REGISTRY name = Inl e) \<longleftrightarrow> name \<notin> set (map fst REGISTRY)"
  proof (cases "name \<in> set (map fst REGISTRY)")
    case True
    then obtain func where "get_provider repr_str REGISTRY name = Inr func"
      using get_provider_present [of name REGISTRY repr_str] by blast
    then show ?thesis using True by simp
  next
    case False
    then show ?thesis using get_provider_missing [of name REGISTRY repr_str] by simp
  qed
  then show ?thesis
    using get_provider_missing [of name REGISTRY repr_str]
      get_provider_present [of name REGISTRY repr_str]
      get_provider_registered [of repr_str name func REGISTRY] by blast
qed

theorem get_provider_contract_witness:
  "get_provider (\<lambda>s. [39] @ s @ [39]) [(py ''idc'', 1::nat), (py ''tecnomega'', 2)] (py ''otro'') =
     Inl (ValueError (py ''Proveedor no registrado: otro. Disponibles: ['' @ [39] @ py ''idc'' @ [39] @ py '', ''
                      @ [39] @ py ''tecnomega'' @ [39] @ py '']''))
   \<and> get_provider (\<lambda>s. [39] @ s @ [39]) [(py ''idc'', 1::nat), (py ''tecnomega'', 2)] (py ''tecnomega'') = Inr 2
   \<and> get_provider (\<lambda>s. [39] @ s @ [39])
        (fst (register (py ''idc'') 3 [(py ''idc'', 1::nat), (py ''tecnomega'', 2)])) (py ''idc'') = Inr 3"
proof -
  let ?R = "[(py ''idc'', 1::nat), (py ''tecnomega'', 2)]"
  let ?q = "\<lambda>s::str. [39] @ s @ [39]"
  have a: "py ''otro'' \<notin> set (map fst ?R)" by (simp add: py_def)
  have b: "py ''tecnomega'' \<in> set (map fst ?R)" by (simp add: py_def)
  note t = get_provider_contract [of "py ''otro''" ?R ?q 3]
  note u = get_provider_contract [of "py ''tecnomega''" ?R ?q 3]
  note v = get_provider_contract [of "py ''idc''" ?R ?q 3]
  have 1: "get_provider ?q ?R (py ''otro'') =
        Inl (ValueError (py ''Proveedor no registrado: '' @ py ''otro'' @ py ''. Disponibles: '' @
                         repr_list ?q (map fst ?R)))"
    using t a by blast
  obtain func where f: "(py ''tecnomega'', func) \<in> set ?R"
    "get_provider ?q ?R (py ''tecnomega'') = Inr func" using u b by blast
  from f(1) have "func = 2" by (simp add: py_def)
  with f(2) have 2: "get_provider ?q ?R (py ''tecnomega'') = Inr 2" by simp
  have 3: "get_provider ?q (fst (register (py ''idc'') 3 ?R)) (py ''idc'') = Inr 3"
    using v by blast
  show ?thesis using 1 2 3 by (simp add: repr_list_def py_def)
qed

text \<open>
  C10. For every finite list of input lines the row-reconstruction scan terminates and
  returns. \<open>scan_loop\<close> is a total function: its termination proof rests on the index
  growing in every iteration. Every branch of the loop body advances the index by
  exactly one, the result of the loop is the body iterated \<open>len(lines)\<close> times from the
  initial state, after \<open>k\<close> iterations the index is \<open>k\<close>, and the loop ends with the
  index equal to the number of lines.
\<close>

theorem scan_loop_runs_n_iterations:
  "idx (process_line st raw) = idx st + 1
   \<and> scan_loop lines init_state = (loop_body lines ^^ length lines) init_state
   \<and> (\<forall>k. idx ((loop_body lines ^^ k) init_state) = k)
   \<and> idx (scan_loop lines init_state) = length lines"
proof -
  have i0: "idx init_state = 0" by (simp add: init_state_def)
  have a: "scan_loop lines init_state = (loop_body lines ^^ length lines) init_state"
    using scan_loop_funpow [of lines init_state] i0 by simp
  have b: "\<forall>k. idx ((loop_body lines ^^ k) init_state) = k"
    using idx_funpow [where st = init_state and lines = lines] i0 by simp
  show ?thesis using a b idx_process_line by simp
qed

theorem scan_loop_runs_n_iterations_witness:
  "idx (process_line init_state (py ''123456 A $1 + iva'')) = idx init_state + 1
   \<and> scan_loop [py ''Laptop'', py ''123456 A $1 + iva''] init_state
       = (loop_body [py ''Laptop'', py ''123456 A $1 + iva'']
            ^^ length [py ''Laptop'', py ''123456 A $1 + iva'']) init_state
   \<and> idx (scan_loop [py ''Laptop'', py ''123456 A $1 + iva''] init_state)
       = length [py ''Laptop'', py ''123456 A $1 + iva'']"
  using scan_loop_runs_n_iterations
    [of init_state "py ''123456 A $1 + iva''" "[py ''Laptop'', py ''123456 A $1 + iva'']"]
  by blast


end
